theory Spec2Isabelle
  imports Complex_Main "HOL-Library.Log_Nat"
begin

section \<open>otgen run: traffic targets and completion policy (cmd/run.go)\<close>

subsection \<open>Machine arithmetic used by the command\<close>

text \<open>
  Go's \<open>int64\<close> and \<open>time.Duration\<close> (an \<open>int64\<close> count of nanoseconds) are
  integers with the two's-complement wrap-around written out.
\<close>

definition int64 :: "int \<Rightarrow> int" where
  "int64 x = (x + 2 ^ 63) mod 2 ^ 64 - 2 ^ 63"

definition Second :: int where
  "Second = 1000000000"

text \<open>Go's integer division truncates towards zero.\<close>

definition quo :: "int \<Rightarrow> int \<Rightarrow> int" where
  "quo a b = int64 (sgn a * sgn b * (\<bar>a\<bar> div \<bar>b\<bar>))"

text \<open>
  IEEE 754 binary floating point, as far as the command uses it: conversion from an
  integer, multiplication and comparison, all rounding to nearest, ties to even. A finite
  value is the rational number it denotes (the two zeros are not told apart: the command
  only multiplies and compares).
\<close>

datatype fp = Finite rat | PosInf | NegInf | NaN

definition pow2 :: "int \<Rightarrow> rat" where
  "pow2 e = (if 0 \<le> e then 2 ^ nat e else 1 / 2 ^ nat (- e))"

text \<open>For \<open>q > 0\<close>, the exponent \<open>e\<close> with \<open>2\<^sup>e \<le> q < 2\<^sup>e\<^sup>+\<^sup>1\<close>.\<close>

definition ilog2 :: "rat \<Rightarrow> int" where
  "ilog2 q = (if 1 \<le> q then bitlen \<lfloor>q\<rfloor> - 1 else - bitlen (\<lceil>1 / q\<rceil> - 1))"

definition round_half_even :: "rat \<Rightarrow> int" where
  "round_half_even x =
     (let f = \<lfloor>x\<rfloor>; r = x - of_int f
      in if r < 1 / 2 then f else if 1 / 2 < r then f + 1 else if even f then f else f + 1)"

text \<open>
  Rounding a rational to the format with \<open>p\<close> significant bits and exponents
  \<open>emin .. emax\<close> (subnormal below \<open>2\<^bsup>emin\<^esup>\<close>, infinite from \<open>2\<^bsup>emax+1\<^esup>\<close>).
\<close>

definition fp_round :: "nat \<Rightarrow> int \<Rightarrow> int \<Rightarrow> rat \<Rightarrow> fp" where
  "fp_round p emin emax q =
     (if q = 0 then Finite 0
      else let e = max (ilog2 \<bar>q\<bar>) emin;
               u = pow2 (e - (int p - 1));
               r = of_int (round_half_even (q / u)) * u
           in if pow2 (emax + 1) \<le> \<bar>r\<bar> then (if 0 < q then PosInf else NegInf)
              else Finite r)"

definition float32 :: "rat \<Rightarrow> fp" where
  "float32 q = fp_round 24 (- 126) 127 q"

definition float64 :: "rat \<Rightarrow> fp" where
  "float64 q = fp_round 53 (- 1022) 1023 q"

text \<open>\<open>float32(d)\<close> and \<open>float64(n)\<close> of an integer.\<close>

definition float32_of_int :: "int \<Rightarrow> fp" where
  "float32_of_int n = float32 (of_int n)"

definition float64_of_int :: "int \<Rightarrow> fp" where
  "float64_of_int n = float64 (of_int n)"

fun fp_sgn :: "fp \<Rightarrow> int" where
  "fp_sgn (Finite x) = (if x < 0 then - 1 else if x = 0 then 0 else 1)"
| "fp_sgn PosInf = 1"
| "fp_sgn NegInf = - 1"
| "fp_sgn NaN = 0"

text \<open>\<open>a * b\<close> on \<open>float32\<close>.\<close>

fun fp_mul32 :: "fp \<Rightarrow> fp \<Rightarrow> fp" where
  "fp_mul32 NaN b = NaN"
| "fp_mul32 a NaN = NaN"
| "fp_mul32 (Finite x) (Finite y) = float32 (x * y)"
| "fp_mul32 a b =
     (let s = fp_sgn a * fp_sgn b
      in if s = 0 then NaN else if 0 < s then PosInf else NegInf)"

text \<open>\<open>a < b\<close> on floating-point values: false when either side is NaN.\<close>

fun fp_less :: "fp \<Rightarrow> fp \<Rightarrow> bool" where
  "fp_less NaN b = False"
| "fp_less a NaN = False"
| "fp_less (Finite x) (Finite y) = (x < y)"
| "fp_less (Finite x) PosInf = True"
| "fp_less (Finite x) NegInf = False"
| "fp_less PosInf b = False"
| "fp_less NegInf NegInf = False"
| "fp_less NegInf b = True"

text \<open>
  \<open>time.Duration(x)\<close> of a \<open>float64\<close>: the fraction is discarded. Go leaves the result
  open when the value does not fit; the value here is the one amd64 produces.
\<close>

definition duration_of_float64 :: "fp \<Rightarrow> int" where
  "duration_of_float64 x =
     (case x of
        Finite r \<Rightarrow>
          (let t = (if 0 \<le> r then \<lfloor>r\<rfloor> else \<lceil>r\<rceil>)
           in if - (2 ^ 63) \<le> t \<and> t < 2 ^ 63 then t else - (2 ^ 63))
      | _ \<Rightarrow> - (2 ^ 63))"

subsection \<open>Data: configuration, metrics, package state\<close>

text \<open>
  The values the code reads from the gosnappi objects: of a configured flow
  \<open>Duration().FixedPackets().Packets()\<close> and \<open>Rate().Pps()\<close>; of a port metric
  \<open>FramesTx()\<close>; of a flow metric \<open>Name()\<close> and \<open>Transmit()\<close>.
\<close>

record flow =
  fixed_packets :: int
  rate_pps :: int

type_synonym config = "flow list"

record port_metric =
  frames_tx :: int

datatype flow_transmit = UNSPECIFIED | STARTED | STOPPED | PAUSED

record flow_metric =
  fm_name :: string
  transmit :: flow_transmit

record metrics_response =
  port_metrics :: "port_metric list"
  flow_metrics :: "flow_metric list"

text \<open>
  What the command writes: log lines, lines on standard output, and the calls it makes.
  A forced-stop warning keeps the arguments of its format string: the flow name (flow
  mode only), the elapsed time read for the message, and \<open>xeta\<close>.
\<close>

datatype transmit_state = START | STOP

datatype event =
    LogInfo string
  | LogTargets int int
  | LogWarnForced "string option" int fp
  | LogFatal string
  | ReadFile string
  | ReadStdin
  | SetConfig config
  | SetTransmitState transmit_state
  | GetMetrics string
  | Stdout string
  | Sleep int

text \<open>The package-level variables of \<open>cmd\<close>, and everything emitted so far.\<close>

record cmd_state =
  otgJson :: bool
  otgFile :: string
  otgMetrics :: string
  otgPullIntervalStr :: string
  otgPullInterval :: int
  xeta :: fp
  emitted :: "event list"

definition emit :: "event list \<Rightarrow> cmd_state \<Rightarrow> cmd_state" where
  "emit es s = s\<lparr>emitted := emitted s @ es\<rparr>"

subsection \<open>calculateTrafficTargets\<close>

text \<open>
  The loop over \<open>config.Flows().Items()\<close>, with its three variables
  \<open>pktCountTotal\<close>, \<open>flowETA\<close> and \<open>trafficETA\<close>; \<open>flowETA\<close> is declared
  outside the loop and keeps its value through a flow without a rate.
\<close>

fun calc_loop :: "flow list \<Rightarrow> int \<Rightarrow> int \<Rightarrow> int \<Rightarrow> int \<times> int" where
  "calc_loop [] pktCountTotal flowETA trafficETA = (pktCountTotal, trafficETA)"
| "calc_loop (f # fs) pktCountTotal flowETA trafficETA =
     (let pktCountFlow = fixed_packets f;
          pktCountTotal' = int64 (pktCountTotal + int64 pktCountFlow);
          ratePPSFlow = rate_pps f;
          flowETA' = (if 0 < ratePPSFlow
                      then int64 (duration_of_float64
                                    (float64_of_int (quo (int64 pktCountFlow) ratePPSFlow))
                                  * Second)
                      else flowETA);
          trafficETA' = (if trafficETA < flowETA' then flowETA' else trafficETA)
      in calc_loop fs pktCountTotal' flowETA' trafficETA')"

definition calculateTrafficTargets :: "config \<Rightarrow> int \<times> int" where
  "calculateTrafficTargets cfg = calc_loop cfg 0 0 0"

subsection \<open>isTrafficRunning and isTrafficRunningWithETA\<close>

fun sum_frames_tx :: "port_metric list \<Rightarrow> int \<Rightarrow> int" where
  "sum_frames_tx [] total_tx = total_tx"
| "sum_frames_tx (pm # pms) total_tx = sum_frames_tx pms (int64 (total_tx + frames_tx pm))"

fun scan_flows :: "flow_metric list \<Rightarrow> bool \<Rightarrow> bool" where
  "scan_flows [] trafficRunning = trafficRunning"
| "scan_flows (fm # fms) trafficRunning =
     scan_flows fms
       (if \<not> trafficRunning \<and> transmit fm \<noteq> STOPPED then True else trafficRunning)"

definition isTrafficRunning :: "metrics_response \<Rightarrow> int \<Rightarrow> cmd_state \<Rightarrow> bool" where
  "isTrafficRunning mr targetTx s =
     (if otgMetrics s = ''port''
      then (if sum_frames_tx (port_metrics mr) 0 < targetTx then True else False)
      else if otgMetrics s = ''flow''
      then scan_flows (flow_metrics mr) False
      else False)"

text \<open>
  The test \<open>float32(trafficETA)*xeta < float32(time.Since(start))\<close>, for one reading
  \<open>since\<close> of \<open>time.Since(start)\<close>.
\<close>

definition eta_exceeded :: "int \<Rightarrow> fp \<Rightarrow> int \<Rightarrow> bool" where
  "eta_exceeded trafficETA x since =
     fp_less (fp_mul32 (float32_of_int trafficETA) x) (float32_of_int since)"

text \<open>
  Every \<open>time.Since(start)\<close> is a new reading of the clock: \<open>since k\<close> is the
  \<open>k\<close>-th reading taken during the call. The flow scan reads the clock once for each
  record it tests, and once more for the message when it stops.
\<close>

fun scan_flows_eta ::
  "int \<Rightarrow> fp \<Rightarrow> (nat \<Rightarrow> int) \<Rightarrow> flow_metric list \<Rightarrow> nat \<Rightarrow> bool \<Rightarrow> bool \<times> event list" where
  "scan_flows_eta trafficETA x since [] k trafficRunning = (trafficRunning, [])"
| "scan_flows_eta trafficETA x since (fm # fms) k trafficRunning =
     (let trafficRunning' =
            (if \<not> trafficRunning \<and> transmit fm \<noteq> STOPPED then True else trafficRunning)
      in if eta_exceeded trafficETA x (since k)
         then (False, [LogWarnForced (Some (fm_name fm)) (since (k + 1)) x])
         else scan_flows_eta trafficETA x since fms (k + 1) trafficRunning')"

definition isTrafficRunningWithETA ::
  "metrics_response \<Rightarrow> int \<Rightarrow> (nat \<Rightarrow> int) \<Rightarrow> int \<Rightarrow> cmd_state \<Rightarrow> bool \<times> cmd_state" where
  "isTrafficRunningWithETA mr targetTx since trafficETA s =
     (if otgMetrics s = ''port''
      then (let trafficRunning =
                  (if sum_frames_tx (port_metrics mr) 0 < targetTx then True else False)
            in if eta_exceeded trafficETA (xeta s) (since 0)
               then (False, emit [LogWarnForced None (since 1) (xeta s)] s)
               else (trafficRunning, s))
      else if otgMetrics s = ''flow''
      then (let (trafficRunning, ws) =
                  scan_flows_eta trafficETA (xeta s) since (flow_metrics mr) 0 False
            in (trafficRunning, emit ws s))
      else (False, s))"

subsection \<open>The run command: runCmd, initOTG, runTraffic\<close>

text \<open>
  Everything outside the program that the command depends on: the parsers and readers of
  the standard library and of gosnappi, the answers of the OTG server to each call, the
  JSON printer \<open>otgMetricsResponseToJson\<close>, and the clock. An answer is the pair
  \<open>(res, err)\<close> the Go call returns, each of which may be nil;
  \<open>get_metrics_results\<close> lists the answers to the successive \<open>GetMetrics\<close> calls.
  \<open>since_start i k\<close> is the \<open>k\<close>-th reading of \<open>time.Since(start)\<close> during the
  \<open>i\<close>-th test of the polling loop.
\<close>

record env =
  parse_duration :: "string \<Rightarrow> string + int"
  read_file :: "string \<Rightarrow> string + string"
  read_stdin :: "string + string"
  from_json :: "string \<Rightarrow> string + config"
  from_yaml :: "string \<Rightarrow> string + config"
  set_config_result :: "config \<Rightarrow> string list option \<times> string option"
  set_transmit_result :: "transmit_state \<Rightarrow> string list option \<times> string option"
  get_metrics_results :: "(metrics_response option \<times> string option) list"
  to_json :: "metrics_response \<Rightarrow> string + string"
  since_start :: "nat \<Rightarrow> nat \<Rightarrow> int"

text \<open>
  How a function of the command ends: \<open>log.Fatal\<close> ends the process (\<open>Exit\<close>), the
  function returns (\<open>Next\<close>), or the polling loop is still running after the last answer
  the server has given (\<open>Pending\<close>). Each carries the state reached.
\<close>

datatype 'a step = Exit cmd_state | Next 'a cmd_state | Pending cmd_state

fun state_of :: "'a step \<Rightarrow> cmd_state" where
  "state_of (Exit s) = s"
| "state_of (Next a s) = s"
| "state_of (Pending s) = s"

fun and_then :: "'a step \<Rightarrow> ('a \<Rightarrow> cmd_state \<Rightarrow> 'b step) \<Rightarrow> 'b step" where
  "and_then (Exit s) f = Exit s"
| "and_then (Next a s) f = f a s"
| "and_then (Pending s) f = Pending s"

datatype response = NilResponse | MetricsResponse metrics_response | ResponseWarning "string list"

definition printMetricsResponseRawJson :: "env \<Rightarrow> metrics_response \<Rightarrow> cmd_state \<Rightarrow> unit step" where
  "printMetricsResponseRawJson e mr s =
     (case to_json e mr of
        Inr j \<Rightarrow> Next () (emit [Stdout j] s)
      | Inl err \<Rightarrow> Exit (emit [LogFatal err] s))"

definition checkResponse :: "env \<Rightarrow> response \<Rightarrow> string option \<Rightarrow> cmd_state \<Rightarrow> unit step" where
  "checkResponse e res err s =
     (case err of
        Some msg \<Rightarrow> Exit (emit [LogFatal msg] s)
      | None \<Rightarrow>
          (case res of
             MetricsResponse v \<Rightarrow> printMetricsResponseRawJson e v s
           | ResponseWarning ws \<Rightarrow> Next () (emit (map (\<lambda>w. LogInfo (''WARNING:'' @ w)) ws) s)
           | NilResponse \<Rightarrow> Exit (emit [LogFatal ''Unknown response type:''] s)))"

definition warning_response :: "string list option \<Rightarrow> response" where
  "warning_response r = (case r of None \<Rightarrow> NilResponse | Some ws \<Rightarrow> ResponseWarning ws)"

definition metrics_response_of :: "metrics_response option \<Rightarrow> response" where
  "metrics_response_of r = (case r of None \<Rightarrow> NilResponse | Some mr \<Rightarrow> MetricsResponse mr)"

definition initOTG :: "env \<Rightarrow> cmd_state \<Rightarrow> config step" where
  "initOTG e s =
     (let (s1, otgbytes) =
            (if otgFile s \<noteq> []
             then (emit [ReadFile (otgFile s)] s, read_file e (otgFile s))
             else (emit [ReadStdin] s, read_stdin e))
      in case otgbytes of
           Inl err \<Rightarrow> Exit (emit [LogFatal err] s1)
         | Inr otg \<Rightarrow>
             (case (if otgJson s1 then from_json e otg else from_yaml e otg) of
                Inl err \<Rightarrow> Exit (emit [LogFatal err] s1)
              | Inr cfg \<Rightarrow> Next cfg s1))"

text \<open>The request built by \<open>runTraffic\<close>: port metrics unless flow metrics are selected.\<close>

definition metrics_request :: "cmd_state \<Rightarrow> string" where
  "metrics_request s =
     (if otgMetrics s = ''port'' then ''port''
      else if otgMetrics s = ''flow'' then ''flow''
      else ''port'')"

text \<open>
  \<open>metrics, err := api.GetMetrics(req)\<close> followed by \<open>checkResponse(metrics, err)\<close>, for
  the answer \<open>r\<close>: the snapshot is returned when the check lets the run go on.
\<close>

definition fetch_metrics ::
  "env \<Rightarrow> metrics_response option \<times> string option \<Rightarrow> cmd_state \<Rightarrow> metrics_response step" where
  "fetch_metrics e r s =
     and_then (checkResponse e (metrics_response_of (fst r)) (snd r)
                 (emit [GetMetrics (metrics_request s)] s))
       (\<lambda>u s1. case fst r of
                  Some metrics \<Rightarrow> Next metrics s1
                | None \<Rightarrow> Exit s1)"

text \<open>The closure \<open>trafficRunning\<close>, chosen by \<open>xeta > 0\<close>.\<close>

definition trafficRunning ::
  "metrics_response \<Rightarrow> int \<Rightarrow> (nat \<Rightarrow> int) \<Rightarrow> int \<Rightarrow> cmd_state \<Rightarrow> bool \<times> cmd_state" where
  "trafficRunning metrics targetTx since trafficETA s =
     (if fp_less (Finite 0) (xeta s)
      then isTrafficRunningWithETA metrics targetTx since trafficETA s
      else (isTrafficRunning metrics targetTx s, s))"

text \<open>
  The loop \<open>for trafficRunning() { Sleep; GetMetrics; checkResponse }\<close>, run on the
  answers the server has given so far; \<open>i\<close> counts the tests of the loop condition.
\<close>

fun poll ::
  "env \<Rightarrow> int \<Rightarrow> int \<Rightarrow> (metrics_response option \<times> string option) list \<Rightarrow> nat \<Rightarrow>
   metrics_response \<Rightarrow> cmd_state \<Rightarrow> unit step" where
  "poll e targetTx trafficETA [] i metrics s =
     (let (running, s1) = trafficRunning metrics targetTx (since_start e i) trafficETA s
      in if running
         then Pending (emit [Sleep (otgPullInterval s1), GetMetrics (metrics_request s1)] s1)
         else Next () s1)"
| "poll e targetTx trafficETA (r # rs) i metrics s =
     (let (running, s1) = trafficRunning metrics targetTx (since_start e i) trafficETA s
      in if running
         then and_then (fetch_metrics e r (emit [Sleep (otgPullInterval s1)] s1))
                (\<lambda>metrics' s2. poll e targetTx trafficETA rs (i + 1) metrics' s2)
         else Next () s1)"

text \<open>
  \<open>runTraffic\<close> in two parts: up to the line that logs the targets, and from the
  metrics request to the end (the first \<open>GetMetrics\<close>, the loop, the STOP).
\<close>

definition runTraffic_polling :: "env \<Rightarrow> int \<Rightarrow> int \<Rightarrow> cmd_state \<Rightarrow> unit step" where
  "runTraffic_polling e targetTx trafficETA s3 =
     (case get_metrics_results e of
        [] \<Rightarrow> Pending (emit [GetMetrics (metrics_request s3)] s3)
      | r # rs \<Rightarrow>
          and_then (fetch_metrics e r s3)
         (\<lambda>metrics s4.
          and_then (poll e targetTx trafficETA rs 0 metrics s4)
         (\<lambda>u s5.
          and_then (checkResponse e (warning_response (fst (set_transmit_result e STOP)))
                      (snd (set_transmit_result e STOP))
                      (emit [LogInfo ''Stopping traffic...'', SetTransmitState STOP] s5))
         (\<lambda>u s6. Next () (emit [LogInfo ''stopped.''] s6)))))"

definition runTraffic :: "env \<Rightarrow> config \<Rightarrow> cmd_state \<Rightarrow> unit step" where
  "runTraffic e cfg s =
     and_then (checkResponse e (warning_response (fst (set_config_result e cfg)))
                 (snd (set_config_result e cfg))
                 (emit [LogInfo ''Applying OTG config...'', SetConfig cfg] s))
    (\<lambda>u s1.
     and_then (checkResponse e (warning_response (fst (set_transmit_result e START)))
                 (snd (set_transmit_result e START))
                 (emit [LogInfo ''ready.'', LogInfo ''Starting traffic...'',
                        SetTransmitState START] s1))
    (\<lambda>u s2.
       let (targetTx, trafficETA) = calculateTrafficTargets cfg
       in runTraffic_polling e targetTx trafficETA
            (emit [LogInfo ''started...'', LogTargets targetTx trafficETA] s2)))"

definition runCmd :: "env \<Rightarrow> cmd_state \<Rightarrow> unit step" where
  "runCmd e s =
     (if otgMetrics s \<noteq> ''port'' \<and> otgMetrics s \<noteq> ''flow''
      then Exit (emit [LogFatal (''Unsupported metrics type requested: '' @ otgMetrics s)] s)
      else case parse_duration e (otgPullIntervalStr s) of
             Inl err \<Rightarrow> Exit (emit [LogFatal err] s)
           | Inr d \<Rightarrow>
               and_then (initOTG e (s\<lparr>otgPullInterval := d\<rparr>)) (\<lambda>cfg s1. runTraffic e cfg s1))"

text \<open>The events that reach outside the process: reading the configuration, and the calls to
  the server.\<close>

fun is_read :: "event \<Rightarrow> bool" where
  "is_read (ReadFile f) = True"
| "is_read ReadStdin = True"
| "is_read ev = False"

fun is_remote_call :: "event \<Rightarrow> bool" where
  "is_remote_call (SetConfig c) = True"
| "is_remote_call (SetTransmitState t) = True"
| "is_remote_call (GetMetrics m) = True"
| "is_remote_call ev = False"

fun is_forced_stop :: "event \<Rightarrow> bool" where
  "is_forced_stop (LogWarnForced n d x) = True"
| "is_forced_stop ev = False"

fun is_targets :: "event \<Rightarrow> bool" where
  "is_targets (LogTargets t d) = True"
| "is_targets ev = False"

text \<open>What \<open>checkResponse\<close> can write, and what the polling loop can write or call.\<close>

fun is_output :: "event \<Rightarrow> bool" where
  "is_output (LogInfo m) = True"
| "is_output (LogFatal m) = True"
| "is_output (Stdout j) = True"
| "is_output ev = False"

fun is_polling :: "event \<Rightarrow> bool" where
  "is_polling (Sleep d) = True"
| "is_polling (GetMetrics c) = True"
| "is_polling (LogWarnForced n d x) = True"
| "is_polling ev = is_output ev"

text \<open>The events a function has added to those of the state \<open>s\<close> it started in.\<close>

definition events_since :: "cmd_state \<Rightarrow> 'a step \<Rightarrow> event list" where
  "events_since s r = drop (length (emitted s)) (emitted (state_of r))"

text \<open>A call is acknowledged when it returns a response and no error.\<close>

definition acknowledged :: "string list option \<times> string option \<Rightarrow> bool" where
  "acknowledged r \<longleftrightarrow> snd r = None \<and> fst r \<noteq> None"

text \<open>\<open>adds P s r\<close>: the step \<open>r\<close> ends in the state \<open>s\<close> with more events, all of kind \<open>P\<close>.\<close>

definition adds :: "(event \<Rightarrow> bool) \<Rightarrow> cmd_state \<Rightarrow> 'a step \<Rightarrow> bool" where
  "adds P s r \<longleftrightarrow> (\<exists>es. state_of r = emit es s \<and> (\<forall>ev \<in> set es. P ev))"

fun after_targets :: "event \<Rightarrow> bool" where
  "after_targets (SetTransmitState STOP) = True"
| "after_targets ev = is_polling ev"

text \<open>
  The readings of \<open>time.Since(start)\<close> that the timeout test of one call of
  \<open>isTrafficRunningWithETA\<close> can see: one in port mode, one for each flow record in flow
  mode.
\<close>

definition readings :: "cmd_state \<Rightarrow> metrics_response \<Rightarrow> nat" where
  "readings s mr =
     (if otgMetrics s = ''port'' then 1
      else if otgMetrics s = ''flow'' then length (flow_metrics mr)
      else 0)"

text \<open>
  The tests of the polling loop, with the targets \<open>targetTx\<close> and \<open>trafficETA\<close>, on
  the snapshots \<open>ms\<close>: test \<open>i\<close> on the first, \<open>i + 1\<close> on the next, and so on (of
  the state only \<open>otgMetrics\<close> and \<open>xeta\<close> are read). An answer to \<open>GetMetrics\<close> is
  good when it carries a snapshot and no error, and the snapshot prints as JSON.
\<close>

fun is_get_metrics :: "event \<Rightarrow> bool" where
  "is_get_metrics (GetMetrics c) = True"
| "is_get_metrics ev = False"

fun is_next :: "'a step \<Rightarrow> bool" where
  "is_next (Next a s) = True"
| "is_next r = False"

definition good_answer :: "env \<Rightarrow> metrics_response option \<times> string option \<Rightarrow> bool" where
  "good_answer e r =
     (snd r = None \<and>
      (case fst r of
         None \<Rightarrow> False
       | Some mr \<Rightarrow> (case to_json e mr of Inl err \<Rightarrow> False | Inr j \<Rightarrow> True)))"

fun loop_tests ::
  "env \<Rightarrow> int \<Rightarrow> int \<Rightarrow> cmd_state \<Rightarrow> nat \<Rightarrow> metrics_response list \<Rightarrow> bool list" where
  "loop_tests e targetTx trafficETA s i [] = []"
| "loop_tests e targetTx trafficETA s i (metrics # ms) =
     fst (trafficRunning metrics targetTx (since_start e i) trafficETA s) #
     loop_tests e targetTx trafficETA s (i + 1) ms"

text \<open>A clock that stands still during a call, and the forced-stop warnings emitted so far.\<close>

definition steady :: "int \<Rightarrow> nat \<Rightarrow> int" where
  "steady d k = d"

definition forced_stops :: "cmd_state \<Rightarrow> nat" where
  "forced_stops s = length (filter is_forced_stop (emitted s))"

text \<open>States and an environment to run the definitions on.\<close>

definition state0 :: "string \<Rightarrow> fp \<Rightarrow> cmd_state" where
  "state0 m x =
     \<lparr>otgJson = False, otgFile = [], otgMetrics = m, otgPullIntervalStr = ''0.5s'',
      otgPullInterval = 0, xeta = x, emitted = []\<rparr>"

definition ports :: "int list \<Rightarrow> metrics_response" where
  "ports ns = \<lparr>port_metrics = map (\<lambda>n. \<lparr>frames_tx = n\<rparr>) ns, flow_metrics = []\<rparr>"

definition flows :: "(string \<times> flow_transmit) list \<Rightarrow> metrics_response" where
  "flows fs =
     \<lparr>port_metrics = [], flow_metrics = map (\<lambda>(n, t). \<lparr>fm_name = n, transmit = t\<rparr>) fs\<rparr>"

definition cfg0 :: config where
  "cfg0 = [\<lparr>fixed_packets = 1000, rate_pps = 100\<rparr>, \<lparr>fixed_packets = 500, rate_pps = 50\<rparr>]"

definition env0 :: "(metrics_response option \<times> string option) list \<Rightarrow> (nat \<Rightarrow> nat \<Rightarrow> int) \<Rightarrow> env" where
  "env0 answers clock =
     \<lparr>parse_duration = (\<lambda>str. Inr 500000000),
      read_file = (\<lambda>path. Inr ''flows''),
      read_stdin = Inr ''flows'',
      from_json = (\<lambda>otg. Inr cfg0),
      from_yaml = (\<lambda>otg. Inr cfg0),
      set_config_result = (\<lambda>c. (Some [], None)),
      set_transmit_result = (\<lambda>t. (Some [], None)),
      get_metrics_results = answers,
      to_json = (\<lambda>mr. Inr ''{}''),
      since_start = clock\<rparr>"

section \<open>Properties\<close>

subsection \<open>Integer arithmetic\<close>

lemma int64_id: "- (2 ^ 63) \<le> x \<Longrightarrow> x < 2 ^ 63 \<Longrightarrow> int64 x = x"
proof -
  assume a: "- (2 ^ 63) \<le> x" "x < 2 ^ 63"
  have "0 \<le> x + 2 ^ 63" "x + 2 ^ 63 < (2 ^ 64 :: int)" using a by simp_all
  then have "(x + 2 ^ 63) mod 2 ^ 64 = x + 2 ^ 63" by (rule mod_pos_pos_trivial)
  then show ?thesis unfolding int64_def by linarith
qed

lemma int64_idem: "int64 (int64 a + b) = int64 (a + b)"
proof -
  define m :: int where "m = 2 ^ 64"
  define h :: int where "h = 2 ^ 63"
  have "((a + h) mod m - h + b + h) mod m = ((a + h) mod m + b) mod m"
    by (simp only: diff_add_cancel add.assoc add.commute [of b h] ) (simp only: add.assoc [symmetric] diff_add_cancel)
  also have "\<dots> = (a + h + b) mod m" by (rule mod_add_left_eq)
  also have "\<dots> = (a + b + h) mod m" by (simp only: add.assoc add.commute [of h b])
  finally show ?thesis unfolding int64_def m_def h_def by (simp only:)
qed

lemma sum_frames_tx_wrap:
  "sum_frames_tx pms (int64 t) = int64 (t + sum_list (map frames_tx pms))"
proof (induction pms arbitrary: t)
  case Nil
  show ?case by simp
next
  case (Cons pm pms)
  have "sum_frames_tx (pm # pms) (int64 t) = sum_frames_tx pms (int64 (t + frames_tx pm))"
    by (simp only: sum_frames_tx.simps int64_idem)
  also have "\<dots> = int64 (t + frames_tx pm + sum_list (map frames_tx pms))"
    by (rule Cons.IH)
  finally show ?case by (simp only: list.map sum_list.Cons add.assoc)
qed

lemma int64_0: "int64 0 = 0"
  by (rule int64_id) simp_all

lemma sum_frames_tx_0: "sum_frames_tx pms 0 = int64 (sum_list (map frames_tx pms))"
  using sum_frames_tx_wrap [of pms 0] by (simp only: int64_0 add_0_left)

lemma scan_flows_iff:
  "scan_flows fms r \<longleftrightarrow> r \<or> (\<exists>fm \<in> set fms. transmit fm \<noteq> STOPPED)"
  by (induction fms arbitrary: r) auto

subsection \<open>Rounding\<close>

lemma pow2_powi: "pow2 e = 2 powi e"
  by (simp add: pow2_def power_int_def inverse_eq_divide power_one_over)

lemma pow2_pos: "0 < pow2 e"
  by (simp add: pow2_def)

lemma pow2_mono: "a \<le> b \<Longrightarrow> pow2 a \<le> pow2 b"
  unfolding pow2_powi by (rule power_int_increasing) simp_all

lemma pow2_nat: "0 \<le> e \<Longrightarrow> pow2 e = 2 ^ nat e"
  by (simp add: pow2_def)

lemma pow2_nonpos: "e \<le> 0 \<Longrightarrow> pow2 e = 1 / 2 ^ nat (- e)"
  by (cases "e = 0") (simp_all add: pow2_def)

lemma ilog2_of_int: "1 \<le> n \<Longrightarrow> ilog2 (of_int n) = bitlen n - 1"
  by (simp add: ilog2_def)

lemma bitlen_pos: "1 \<le> n \<Longrightarrow> 1 \<le> bitlen n"
  using bitlen_nonneg [of n] bitlen_eq_zero_iff [of n] by linarith

lemma pow2_ilog2_le: 
  assumes "1 \<le> n" shows "pow2 (bitlen n - 1) \<le> of_int n"
proof -
  have "0 \<le> bitlen n - 1" using bitlen_pos [OF assms] by simp
  then have "pow2 (bitlen n - 1) = of_int (2 ^ nat (bitlen n - 1))" by (simp add: pow2_nat)
  also have "\<dots> \<le> of_int n" using bitlen_bounds [of n] assms by (simp only: of_int_le_iff)
  finally show ?thesis .
qed

lemma round_half_even_ge: "of_int k \<le> x \<Longrightarrow> k \<le> round_half_even x"
proof -
  assume "of_int k \<le> x"
  then have "k \<le> \<lfloor>x\<rfloor>" by (simp add: le_floor_iff)
  then show ?thesis by (simp add: round_half_even_def Let_def)
qed

lemma round_half_even_le: "x \<le> of_int k \<Longrightarrow> round_half_even x \<le> k"
proof -
  assume a: "x \<le> of_int k"
  show ?thesis
  proof (cases "x = of_int k")
    case True
    then show ?thesis by (simp add: round_half_even_def Let_def)
  next
    case False
    with a have "x < of_int k" by simp
    then have "\<lfloor>x\<rfloor> < k" by (simp add: floor_less_iff)
    then show ?thesis by (simp add: round_half_even_def Let_def)
  qed
qed

lemma round_half_even_of_int: "round_half_even (of_int k) = k"
  by (simp add: round_half_even_def Let_def)

text \<open>The sign of a rounded value.\<close>

lemma fp_round_pos:
  assumes "1 \<le> n" "24 \<le> p \<or> 1 \<le> p" "emin \<le> 0"
  shows "fp_less (Finite 0) (fp_round p emin emax (of_int n))"
proof -
  let ?q = "of_int n :: rat"
  have q: "?q \<noteq> 0" "\<bar>?q\<bar> = ?q" "0 < ?q" using assms(1) by simp_all
  define e where "e = max (ilog2 \<bar>?q\<bar>) emin"
  define u where "u = pow2 (e - (int p - 1))"
  define r where "r = of_int (round_half_even (?q / u)) * u"
  have b: "0 \<le> bitlen n - 1" using bitlen_pos [OF assms(1)] by simp
  have e: "e = bitlen n - 1" using b assms(3) by (simp add: e_def q ilog2_of_int [OF assms(1)])
  have u0: "0 < u" by (simp add: u_def pow2_pos)
  have "u \<le> pow2 e" unfolding u_def using assms(2) by (intro pow2_mono) auto
  also have "\<dots> \<le> ?q" unfolding e by (rule pow2_ilog2_le [OF assms(1)])
  finally have "1 \<le> ?q / u" using u0 by (simp add: le_divide_eq)
  then have "1 \<le> round_half_even (?q / u)" using round_half_even_ge [of 1 "?q / u"] by simp
  then have "0 < r" using u0 by (simp add: r_def)
  have "fp_round p emin emax ?q =
      (if pow2 (emax + 1) \<le> \<bar>r\<bar> then (if 0 < ?q then PosInf else NegInf) else Finite r)"
    unfolding fp_round_def Let_def r_def u_def e_def using q(1) by (simp only: if_False)
  then show ?thesis using \<open>0 < r\<close> q(3) by simp
qed

lemma fp_round_nonpos:
  assumes "n \<le> 0"
  shows "\<not> fp_less (Finite 0) (fp_round p emin emax (of_int n))"
proof (cases "n = 0")
  case True
  then show ?thesis by (simp add: fp_round_def)
next
  case False
  let ?q = "of_int n :: rat"
  have q: "?q \<noteq> 0" "?q < 0" using assms False by simp_all
  define e where "e = max (ilog2 \<bar>?q\<bar>) emin"
  define u where "u = pow2 (e - (int p - 1))"
  define r where "r = of_int (round_half_even (?q / u)) * u"
  have u0: "0 < u" by (simp add: u_def pow2_pos)
  have "?q / u \<le> 0" using q(2) u0 by (simp add: divide_le_0_iff)
  then have "round_half_even (?q / u) \<le> 0" using round_half_even_le [of "?q / u" 0] by simp
  then have "r \<le> 0" using u0 by (simp add: r_def mult_le_0_iff)
  have "fp_round p emin emax ?q =
      (if pow2 (emax + 1) \<le> \<bar>r\<bar> then (if 0 < ?q then PosInf else NegInf) else Finite r)"
    unfolding fp_round_def Let_def r_def u_def e_def using q(1) by (simp only: if_False)
  then show ?thesis using \<open>r \<le> 0\<close> q(2) by simp
qed

lemma float32_of_int_pos_iff: "fp_less (Finite 0) (float32_of_int d) \<longleftrightarrow> 0 < d"
proof (cases "0 < d")
  case True
  then have "1 \<le> d" by simp
  then show ?thesis using fp_round_pos [of d 24 "- 126" 127] True
    by (simp add: float32_of_int_def float32_def)
next
  case False
  then show ?thesis using fp_round_nonpos [of d 24 "- 126" 127]
    by (simp add: float32_of_int_def float32_def)
qed

lemma eta_exceeded_zero: "eta_exceeded 0 (Finite x) d \<longleftrightarrow> 0 < d"
proof -
  have "fp_mul32 (float32_of_int 0) (Finite x) = Finite 0"
    by (simp add: float32_of_int_def float32_def fp_round_def)
  then show ?thesis by (simp only: eta_exceeded_def float32_of_int_pos_iff)
qed

lemma float64_exact:
  assumes "0 \<le> q" "q < 2 ^ 53"
  shows "duration_of_float64 (float64_of_int q) = q"
proof (cases "q = 0")
  case True
  then show ?thesis by (simp add: duration_of_float64_def float64_of_int_def float64_def fp_round_def)
next
  case False
  then have q1: "1 \<le> q" using assms(1) by simp
  let ?q = "of_int q :: rat"
  have q: "?q \<noteq> 0" "\<bar>?q\<bar> = ?q" using q1 by simp_all
  define b where "b = bitlen q - 1"
  have b0: "0 \<le> b" using bitlen_pos [OF q1] by (simp add: b_def)
  have "(2::int) ^ nat b \<le> q" using bitlen_bounds [of q] q1 by (simp add: b_def)
  then have "(2::int) ^ nat b < 2 ^ 53" using assms(2) by linarith
  then have "nat b < 53" using power_strict_increasing_iff [of "2::int" "nat b" 53] by simp
  then have b52: "b \<le> 52" by simp
  define k where "k = nat (52 - b)"
  define u where "u = pow2 (b - (int 53 - 1))"
  have u: "u = 1 / 2 ^ k" unfolding u_def k_def using b52 pow2_nonpos [of "b - 52"] by simp
  have "?q / u = of_int (q * 2 ^ k)" by (simp add: u)
  then have "round_half_even (?q / u) = q * 2 ^ k" by (simp only: round_half_even_of_int)
  then have r: "of_int (round_half_even (?q / u)) * u = ?q" by (simp add: u)
  have "?q < 2 ^ 53" using assms(2) by (metis of_int_less_iff of_int_numeral of_int_power)
  also have "(2::rat) ^ 53 \<le> 2 ^ nat (1023 + 1)" by (rule power_increasing) simp_all
  finally have lt: "?q < 2 ^ nat (1023 + 1)" .
  have "pow2 (1023 + 1) = 2 ^ nat (1023 + 1)" by (rule pow2_nat) simp
  then have big: "\<not> pow2 (1023 + 1) \<le> \<bar>?q\<bar>" using lt unfolding q(2) by (simp only: not_le)
  have e: "max (ilog2 \<bar>?q\<bar>) (- 1022) = b"
    using b0 by (simp add: q ilog2_of_int [OF q1] b_def)
  have "fp_round 53 (- 1022) 1023 ?q = Finite ?q"
    unfolding fp_round_def Let_def e using q(1) r big unfolding u_def by (simp only: if_False)
  then have "float64_of_int q = Finite ?q" by (simp only: float64_of_int_def float64_def)
  moreover have "- (2 ^ 63) \<le> q" "q < 2 ^ 63" using assms by simp_all
  ultimately show ?thesis using assms(1) by (simp add: duration_of_float64_def)
qed

subsection \<open>The loop of calculateTrafficTargets\<close>

lemma Second_pos: "0 < Second" by (simp add: Second_def)

lemma flow_eta_step:
  assumes "0 \<le> c" "c < 2 ^ 32" "0 < r"
  shows "int64 (duration_of_float64 (float64_of_int (quo (int64 c) r)) * Second) = c div r * Second"
proof -
  have c: "int64 c = c" using assms(1,2) by (intro int64_id) simp_all
  have d0: "0 \<le> c div r" using assms(1,3) by (simp add: pos_imp_zdiv_nonneg_iff)
  have dc: "c div r \<le> c" using assms(1,3) by (metis div_0 int_div_le_self leI nle_le)
  then have d32: "c div r < 2 ^ 32" using assms(2) by linarith
  have "sgn c * sgn r * (\<bar>c\<bar> div \<bar>r\<bar>) = c div r"
  proof (cases "c = 0")
    case True then show ?thesis by simp
  next
    case False
    then have "sgn c = 1" "sgn r = 1" "\<bar>c\<bar> = c" "\<bar>r\<bar> = r" using assms by simp_all
    then show ?thesis by simp
  qed
  moreover have "int64 (c div r) = c div r" using d0 d32 by (intro int64_id) simp_all
  ultimately have q: "quo (int64 c) r = c div r" by (simp only: quo_def c)
  have f: "duration_of_float64 (float64_of_int (c div r)) = c div r"
    using d0 d32 by (intro float64_exact) simp_all
  have "c div r * Second \<le> (2 ^ 32 - 1) * Second"
    using d32 Second_pos by (intro mult_right_mono) simp_all
  also have "\<dots> < 2 ^ 63" by (simp add: Second_def)
  finally have hi: "c div r * Second < 2 ^ 63" .
  have lo: "0 \<le> c div r * Second" using d0 Second_pos by simp
  have "int64 (c div r * Second) = c div r * Second" using lo hi by (intro int64_id) simp_all
  then show ?thesis by (simp only: q f)
qed

lemma Max_insert_max:
  fixes a b :: int
  assumes "finite X"
  shows "Max (insert (max a b) X) = Max (insert a (insert b X))"
proof (cases "X = {}")
  case True
  then show ?thesis by (simp add: max.commute)
next
  case False
  then show ?thesis using assms by (simp add: max.assoc)
qed

lemma calc_loop_result:
  assumes "\<forall>f \<in> set fs. 0 \<le> fixed_packets f \<and> fixed_packets f < 2 ^ 32"
    and "flowETA \<le> trafficETA"
  shows "calc_loop fs (int64 t) flowETA trafficETA =
           (int64 (t + sum_list (map fixed_packets fs)),
            Max (insert trafficETA
                  ((\<lambda>f. fixed_packets f div rate_pps f * Second) ` {f \<in> set fs. 0 < rate_pps f})))"
  using assms
proof (induction fs arbitrary: t flowETA trafficETA)
  case Nil
  then show ?case by simp
next
  case (Cons f fs)
  let ?E = "\<lambda>f. fixed_packets f div rate_pps f * Second"
  let ?S = "{g \<in> set fs. 0 < rate_pps g}"
  have c: "0 \<le> fixed_packets f" "fixed_packets f < 2 ^ 32" using Cons.prems(1) by simp_all
  have rest: "\<forall>g \<in> set fs. 0 \<le> fixed_packets g \<and> fixed_packets g < 2 ^ 32"
    using Cons.prems(1) by simp
  have ci: "int64 (fixed_packets f) = fixed_packets f" using c by (intro int64_id) simp_all
  have tot: "int64 (int64 t + int64 (fixed_packets f)) = int64 (t + fixed_packets f)"
    by (simp only: ci int64_idem)
  show ?case
  proof (cases "0 < rate_pps f")
    case True
    have step: "calc_loop (f # fs) (int64 t) flowETA trafficETA =
        calc_loop fs (int64 (t + fixed_packets f)) (?E f) (max trafficETA (?E f))"
      using True by (simp add: Let_def tot flow_eta_step [OF c True] max_def)
    have "calc_loop fs (int64 (t + fixed_packets f)) (?E f) (max trafficETA (?E f)) =
        (int64 (t + fixed_packets f + sum_list (map fixed_packets fs)),
         Max (insert (max trafficETA (?E f)) (?E ` ?S)))"
      by (rule Cons.IH [OF rest]) simp
    moreover have "{g \<in> set (f # fs). 0 < rate_pps g} = insert f ?S" using True by auto
    moreover have "Max (insert (max trafficETA (?E f)) (?E ` ?S)) =
        Max (insert trafficETA (insert (?E f) (?E ` ?S)))"
      by (rule Max_insert_max) simp
    ultimately show ?thesis unfolding step by (simp add: add.assoc)
  next
    case False
    have step: "calc_loop (f # fs) (int64 t) flowETA trafficETA =
        calc_loop fs (int64 (t + fixed_packets f)) flowETA trafficETA"
      using False Cons.prems(2) by (simp add: Let_def tot)
    have "calc_loop fs (int64 (t + fixed_packets f)) flowETA trafficETA =
        (int64 (t + fixed_packets f + sum_list (map fixed_packets fs)),
         Max (insert trafficETA (?E ` ?S)))"
      by (rule Cons.IH [OF rest Cons.prems(2)])
    moreover have "{g \<in> set (f # fs). 0 < rate_pps g} = ?S" using False by auto
    ultimately show ?thesis unfolding step by (simp add: add.assoc)
  qed
qed

lemma sum_list_nonneg_packets:
  "\<forall>f \<in> set fs. 0 \<le> fixed_packets f \<Longrightarrow> 0 \<le> sum_list (map fixed_packets fs)"
  by (induction fs) auto

subsection \<open>The completion checks and the state\<close>

lemma emit_fields [simp]:
  "otgMetrics (emit es s) = otgMetrics s" "xeta (emit es s) = xeta s"
  "otgPullInterval (emit es s) = otgPullInterval s" "emitted (emit es s) = emitted s @ es"
  by (simp_all add: emit_def)

lemma emit_emit: "emit es' (emit es s) = emit (es @ es') s"
  by (simp add: emit_def)

lemma emit_Nil [simp]: "emit [] s = s"
  by (simp add: emit_def)

lemma scan_flows_eta_events:
  "length (snd (scan_flows_eta eta x since fms k r)) \<le> 1 \<and>
   (\<forall>ev \<in> set (snd (scan_flows_eta eta x since fms k r)). is_forced_stop ev)"
  by (induction fms arbitrary: k r) (auto simp: Let_def)

lemma scan_flows_eta_names:
  "map fm_name fms = map fm_name fms' \<Longrightarrow>
   snd (scan_flows_eta eta x since fms k r) = snd (scan_flows_eta eta x since fms' k r')"
proof (induction fms arbitrary: fms' k r r')
  case Nil
  then show ?case by simp
next
  case (Cons fm fms)
  then obtain fm' fms'' where f: "fms' = fm' # fms''" "fm_name fm = fm_name fm'"
    "map fm_name fms = map fm_name fms''" by (cases fms') auto
  show ?case unfolding f(1) using Cons.IH [OF f(3)] f(2) by (simp add: Let_def)
qed

lemma scan_flows_eta_quiet:
  "\<forall>j. \<not> eta_exceeded eta x (since j) \<Longrightarrow>
   scan_flows_eta eta x since fms k r = (scan_flows fms r, [])"
  by (induction fms arbitrary: k r) (auto simp: Let_def)

text \<open>What a call of isTrafficRunningWithETA does to the state: it appends at most one
  forced-stop warning, and reads only otgMetrics and xeta.\<close>

lemma with_eta_state:
  "\<exists>ws. snd (isTrafficRunningWithETA mr t since eta s) = emit ws s \<and> length ws \<le> 1 \<and>
        (\<forall>ev \<in> set ws. is_forced_stop ev)"
proof -
  consider (p) "otgMetrics s = ''port''" | (f) "otgMetrics s = ''flow''"
    | (o) "otgMetrics s \<noteq> ''port''" "otgMetrics s \<noteq> ''flow''" by blast
  then show ?thesis
  proof cases
    case p
    show ?thesis
    proof (cases "eta_exceeded eta (xeta s) (since 0)")
      case True
      with p have "snd (isTrafficRunningWithETA mr t since eta s) =
          emit [LogWarnForced None (since 1) (xeta s)] s"
        by (simp add: isTrafficRunningWithETA_def)
      then show ?thesis by (intro exI [of _ "[LogWarnForced None (since 1) (xeta s)]"]) simp
    next
      case False
      with p have "snd (isTrafficRunningWithETA mr t since eta s) = emit [] s"
        by (simp add: isTrafficRunningWithETA_def)
      then show ?thesis by (intro exI [of _ "[]"]) simp
    qed
  next
    case f
    let ?r = "scan_flows_eta eta (xeta s) since (flow_metrics mr) 0 False"
    from f have "snd (isTrafficRunningWithETA mr t since eta s) = emit (snd ?r) s"
      by (simp add: isTrafficRunningWithETA_def split: prod.splits)
    then show ?thesis using scan_flows_eta_events [of eta "xeta s" since "flow_metrics mr" 0 False]
      by (intro exI [of _ "snd ?r"]) simp
  next
    case o
    then have "snd (isTrafficRunningWithETA mr t since eta s) = emit [] s"
      by (simp add: isTrafficRunningWithETA_def)
    then show ?thesis by (intro exI [of _ "[]"]) simp
  qed
qed

lemma running_reads:
  "otgMetrics s' = otgMetrics s \<Longrightarrow> isTrafficRunning mr t s' = isTrafficRunning mr t s"
  unfolding isTrafficRunning_def by simp

lemma with_eta_reads:
  assumes "otgMetrics s' = otgMetrics s" "xeta s' = xeta s"
  shows "fst (isTrafficRunningWithETA mr t since eta s') = fst (isTrafficRunningWithETA mr t since eta s)"
  unfolding isTrafficRunningWithETA_def assms by (simp add: case_prod_beta)

lemma events_since_emit: "state_of r = emit es s \<Longrightarrow> events_since s r = es"
  by (simp add: events_since_def)

lemma is_output_simps:
  "is_output ev \<Longrightarrow> \<not> is_targets ev" "is_output ev \<Longrightarrow> \<not> is_forced_stop ev"
  "is_output ev \<Longrightarrow> \<not> is_remote_call ev" "is_output ev \<Longrightarrow> \<not> is_read ev"
  by (cases ev; simp)+

text \<open>checkResponse only writes log lines and standard output, and then either ends the
  process or returns.\<close>

lemma checkResponse_cases:
  obtains es where "checkResponse e res err s = Exit (emit es s)" "\<forall>ev \<in> set es. is_output ev"
  | es where "checkResponse e res err s = Next () (emit es s)" "\<forall>ev \<in> set es. is_output ev"
proof (cases err)
  case (Some msg)
  then have "checkResponse e res err s = Exit (emit [LogFatal msg] s)"
    by (simp add: checkResponse_def)
  then show ?thesis using that(1) [of "[LogFatal msg]"] by simp
next
  case None
  show ?thesis
  proof (cases res)
    case NilResponse
    with None have "checkResponse e res err s = Exit (emit [LogFatal ''Unknown response type:''] s)"
      by (simp add: checkResponse_def)
    then show ?thesis using that(1) [of "[LogFatal ''Unknown response type:'']"] by simp
  next
    case (MetricsResponse v)
    show ?thesis
    proof (cases "to_json e v")
      case (Inl m)
      with None MetricsResponse have "checkResponse e res err s = Exit (emit [LogFatal m] s)"
        by (simp add: checkResponse_def printMetricsResponseRawJson_def)
      then show ?thesis using that(1) [of "[LogFatal m]"] by simp
    next
      case (Inr j)
      with None MetricsResponse have "checkResponse e res err s = Next () (emit [Stdout j] s)"
        by (simp add: checkResponse_def printMetricsResponseRawJson_def)
      then show ?thesis using that(2) [of "[Stdout j]"] by simp
    qed
  next
    case (ResponseWarning ws)
    with None have "checkResponse e res err s =
        Next () (emit (map (\<lambda>w. LogInfo (''WARNING:'' @ w)) ws) s)"
      by (simp add: checkResponse_def)
    then show ?thesis using that(2) [of "map (\<lambda>w. LogInfo (''WARNING:'' @ w)) ws"] by auto
  qed
qed

lemma fetch_metrics_cases:
  obtains es where "fetch_metrics e r s = Exit (emit (GetMetrics (metrics_request s) # es) s)"
      "\<forall>ev \<in> set es. is_output ev"
  | es m where "fetch_metrics e r s = Next m (emit (GetMetrics (metrics_request s) # es) s)"
      "\<forall>ev \<in> set es. is_output ev"
proof -
  let ?s = "emit [GetMetrics (metrics_request s)] s"
  show ?thesis
  proof (cases rule: checkResponse_cases [of e "metrics_response_of (fst r)" "snd r" ?s])
    case (1 es)
    then have "fetch_metrics e r s = Exit (emit (GetMetrics (metrics_request s) # es) s)"
      by (simp add: fetch_metrics_def emit_emit)
    then show ?thesis using that(1) 1(2) by blast
  next
    case (2 es)
    show ?thesis
    proof (cases "fst r")
      case None
      with 2 have "fetch_metrics e r s = Exit (emit (GetMetrics (metrics_request s) # es) s)"
        by (simp add: fetch_metrics_def emit_emit)
      then show ?thesis using that(1) 2(2) by blast
    next
      case (Some m)
      with 2 have "fetch_metrics e r s = Next m (emit (GetMetrics (metrics_request s) # es) s)"
        by (simp add: fetch_metrics_def emit_emit)
      then show ?thesis using that(2) 2(2) by blast
    qed
  qed
qed

text \<open>A test of the loop condition: a forced-stop warning comes only with the answer
  "not running".\<close>

lemma scan_flows_eta_running:
  "fst (scan_flows_eta eta x since fms k r) \<Longrightarrow> snd (scan_flows_eta eta x since fms k r) = []"
  by (induction fms arbitrary: k r) (auto simp: Let_def split: if_splits)

lemma with_eta_running:
  assumes "fst (isTrafficRunningWithETA mr t since eta s)"
  shows "snd (isTrafficRunningWithETA mr t since eta s) = s"
proof -
  consider (p) "otgMetrics s = ''port''" | (f) "otgMetrics s = ''flow''"
    | (o) "otgMetrics s \<noteq> ''port''" "otgMetrics s \<noteq> ''flow''" by blast
  then show ?thesis
  proof cases
    case p
    then show ?thesis using assms by (simp add: isTrafficRunningWithETA_def split: if_splits)
  next
    case f
    let ?r = "scan_flows_eta eta (xeta s) since (flow_metrics mr) 0 False"
    from f have "isTrafficRunningWithETA mr t since eta s = (fst ?r, emit (snd ?r) s)"
      by (simp add: isTrafficRunningWithETA_def case_prod_beta)
    then show ?thesis using assms scan_flows_eta_running [of eta "xeta s" since "flow_metrics mr" 0 False]
      by simp
  next
    case o
    then show ?thesis using assms by (simp add: isTrafficRunningWithETA_def)
  qed
qed

lemma trafficRunning_cases:
  obtains "trafficRunning mr t since eta s = (True, s)"
  | ws where "trafficRunning mr t since eta s = (False, emit ws s)" "length ws \<le> 1"
      "\<forall>ev \<in> set ws. is_forced_stop ev"
proof (cases "fp_less (Finite 0) (xeta s)")
  case False
  then have "trafficRunning mr t since eta s = (isTrafficRunning mr t s, s)"
    by (simp add: trafficRunning_def)
  then show ?thesis using that(1) that(2) [of "[]"] by (cases "isTrafficRunning mr t s") simp_all
next
  case True
  then have eq: "trafficRunning mr t since eta s = isTrafficRunningWithETA mr t since eta s"
    by (simp add: trafficRunning_def)
  show ?thesis
  proof (cases "fst (isTrafficRunningWithETA mr t since eta s)")
    case True
    then have "trafficRunning mr t since eta s = (True, s)"
      using with_eta_running [OF True] eq by (metis prod.collapse)
    then show ?thesis by (rule that(1))
  next
    case False
    obtain ws where ws: "snd (isTrafficRunningWithETA mr t since eta s) = emit ws s"
      "length ws \<le> 1" "\<forall>ev \<in> set ws. is_forced_stop ev"
      using with_eta_state by blast
    have "trafficRunning mr t since eta s = (False, emit ws s)"
      using False ws(1) eq by (metis prod.collapse)
    then show ?thesis using that(2) ws(2,3) by blast
  qed
qed

subsection \<open>The polling loop\<close>

lemma is_polling_simps:
  "is_polling ev \<Longrightarrow> \<not> is_targets ev" "is_polling ev \<Longrightarrow> \<not> is_read ev"
  "is_output ev \<Longrightarrow> is_polling ev" "is_forced_stop ev \<Longrightarrow> is_polling ev"
  by (cases ev; simp)+

lemma filter_forced_output:
  "\<forall>ev \<in> set es. is_output ev \<Longrightarrow> filter is_forced_stop es = []"
  by (induction es) (auto dest: is_output_simps(2))

lemma poll_events:
  "\<exists>es. state_of (poll e t eta rs i m s) = emit es s \<and> (\<forall>ev \<in> set es. is_polling ev) \<and>
        length (filter is_forced_stop es) \<le> 1"
proof (induction rs arbitrary: i m s)
  case Nil
  show ?case
  proof (cases rule: trafficRunning_cases [of m t "since_start e i" eta s])
    case 1
    then have "state_of (poll e t eta [] i m s) =
        emit [Sleep (otgPullInterval s), GetMetrics (metrics_request s)] s" by simp
    then show ?thesis
      by (intro exI [of _ "[Sleep (otgPullInterval s), GetMetrics (metrics_request s)]"]) simp
  next
    case (2 ws)
    then have "state_of (poll e t eta [] i m s) = emit ws s" by simp
    moreover have "length (filter is_forced_stop ws) \<le> 1"
      using 2(2) length_filter_le [of is_forced_stop ws] by linarith
    ultimately show ?thesis using 2(3) by (intro exI [of _ ws]) (simp add: is_polling_simps)
  qed
next
  case (Cons r rs)
  show ?case
  proof (cases rule: trafficRunning_cases [of m t "since_start e i" eta s])
    case 1
    let ?s1 = "emit [Sleep (otgPullInterval s)] s"
    have p: "poll e t eta (r # rs) i m s =
        and_then (fetch_metrics e r ?s1) (\<lambda>m' s2. poll e t eta rs (i + 1) m' s2)"
      using 1 by simp
    show ?thesis
    proof (cases rule: fetch_metrics_cases [of e r ?s1])
      case (1 es)
      let ?es = "Sleep (otgPullInterval s) # GetMetrics (metrics_request ?s1) # es"
      have "state_of (poll e t eta (r # rs) i m s) = emit ?es s"
        unfolding p 1(1) by (simp add: emit_emit)
      moreover have "filter is_forced_stop ?es = []" using filter_forced_output [OF 1(2)] by simp
      ultimately show ?thesis using 1(2) by (intro exI [of _ ?es]) (simp add: is_polling_simps)
    next
      case (2 es m')
      let ?es = "Sleep (otgPullInterval s) # GetMetrics (metrics_request ?s1) # es"
      obtain es' where es': "state_of (poll e t eta rs (i + 1) m' (emit ?es s)) = emit es' (emit ?es s)"
        "\<forall>ev \<in> set es'. is_polling ev" "length (filter is_forced_stop es') \<le> 1"
        using Cons.IH by blast
      have "state_of (poll e t eta (r # rs) i m s) = emit (?es @ es') s"
        unfolding p 2(1) using es'(1) by (simp add: emit_emit)
      moreover have "filter is_forced_stop (?es @ es') = filter is_forced_stop es'"
        using filter_forced_output [OF 2(2)] by simp
      ultimately show ?thesis using 2(2) es'(2,3)
        by (intro exI [of _ "?es @ es'"]) (auto simp: is_polling_simps)
    qed
  next
    case (2 ws)
    then have "state_of (poll e t eta (r # rs) i m s) = emit ws s" by simp
    moreover have "length (filter is_forced_stop ws) \<le> 1"
      using 2(2) length_filter_le [of is_forced_stop ws] by linarith
    ultimately show ?thesis using 2(3) by (intro exI [of _ ws]) (simp add: is_polling_simps)
  qed
qed

lemma forced_stops_emit:
  "forced_stops (emit es s) = forced_stops s + length (filter is_forced_stop es)"
  by (simp add: forced_stops_def)

lemma poll_forced_once:
  "forced_stops (state_of (poll e t eta rs i m s)) \<le> forced_stops s + 1"
proof -
  obtain es where "state_of (poll e t eta rs i m s) = emit es s"
    "length (filter is_forced_stop es) \<le> 1" using poll_events by blast
  then show ?thesis by (simp add: forced_stops_emit)
qed

text \<open>With xeta not above 0 the loop never reads the clock.\<close>

lemma checkResponse_clock:
  "checkResponse (e\<lparr>since_start := c\<rparr>) res err s = checkResponse e res err s"
proof -
  have "printMetricsResponseRawJson (e\<lparr>since_start := c\<rparr>) v s = printMetricsResponseRawJson e v s"
    for v by (simp add: printMetricsResponseRawJson_def)
  then show ?thesis by (simp add: checkResponse_def split: option.splits response.splits)
qed

lemma fetch_metrics_clock:
  "fetch_metrics (e\<lparr>since_start := c\<rparr>) r s = fetch_metrics e r s"
  by (simp add: fetch_metrics_def checkResponse_clock)

lemma fetch_metrics_xeta:
  "xeta (state_of (fetch_metrics e r s)) = xeta s"
  by (cases rule: fetch_metrics_cases [of e r s]) simp_all

lemma poll_clock:
  assumes "\<not> fp_less (Finite 0) (xeta s)"
  shows "poll (e\<lparr>since_start := c\<rparr>) t eta rs i m s = poll e t eta rs i m s"
  using assms
proof (induction rs arbitrary: i m s)
  case Nil
  then show ?case by (simp add: trafficRunning_def)
next
  case (Cons r rs)
  let ?s1 = "emit [Sleep (otgPullInterval s)] s"
  have x: "\<not> fp_less (Finite 0) (xeta s2)" if "fetch_metrics e r ?s1 = Next m' s2" for m' s2
    using fetch_metrics_xeta [of e r ?s1] that Cons.prems by simp
  have "and_then (fetch_metrics e r ?s1) (\<lambda>m' s2. poll (e\<lparr>since_start := c\<rparr>) t eta rs (i + 1) m' s2) =
        and_then (fetch_metrics e r ?s1) (\<lambda>m' s2. poll e t eta rs (i + 1) m' s2)"
    by (cases "fetch_metrics e r ?s1") (simp_all add: Cons.IH x)
  then show ?case using Cons.prems by (simp add: trafficRunning_def fetch_metrics_clock)
qed

subsection \<open>The timeout test\<close>

lemma exceeded_result:
  assumes "eta_exceeded eta (xeta s) (since 0)"
  shows "fst (isTrafficRunningWithETA mr t since eta s) = False \<and>
         forced_stops (snd (isTrafficRunningWithETA mr t since eta s)) =
           forced_stops s +
           (if otgMetrics s = ''port'' \<or> (otgMetrics s = ''flow'' \<and> flow_metrics mr \<noteq> [])
            then 1 else 0)"
proof -
  consider (p) "otgMetrics s = ''port''" | (f) "otgMetrics s = ''flow''"
    | (o) "otgMetrics s \<noteq> ''port''" "otgMetrics s \<noteq> ''flow''" by blast
  then show ?thesis
  proof cases
    case p
    then have "isTrafficRunningWithETA mr t since eta s =
        (False, emit [LogWarnForced None (since 1) (xeta s)] s)"
      using assms by (simp add: isTrafficRunningWithETA_def)
    then show ?thesis using p by (simp add: forced_stops_emit)
  next
    case f
    show ?thesis
    proof (cases "flow_metrics mr")
      case Nil
      then have "isTrafficRunningWithETA mr t since eta s = (False, s)"
        using f by (simp add: isTrafficRunningWithETA_def)
      then show ?thesis using f Nil by simp
    next
      case (Cons fm fms)
      then have "isTrafficRunningWithETA mr t since eta s =
          (False, emit [LogWarnForced (Some (fm_name fm)) (since 1) (xeta s)] s)"
        using f assms by (simp add: isTrafficRunningWithETA_def)
      then show ?thesis using f Cons by (simp add: forced_stops_emit)
    qed
  next
    case o
    then have "isTrafficRunningWithETA mr t since eta s = (False, s)"
      by (simp add: isTrafficRunningWithETA_def)
    then show ?thesis using o by simp
  qed
qed

lemma quiet_result:
  assumes "\<forall>k. \<not> eta_exceeded eta (xeta s) (since k)"
  shows "isTrafficRunningWithETA mr t since eta s = (isTrafficRunning mr t s, s)"
  using assms scan_flows_eta_quiet [OF assms, of "flow_metrics mr" 0 False]
  by (simp add: isTrafficRunningWithETA_def isTrafficRunning_def)

text \<open>A lower bound for the \<open>float32\<close> of a positive integer, from one for its rounded
  significand.\<close>

lemma round_half_even_odd:
  assumes "of_int k + 1 / 2 \<le> x" and "odd k"
  shows "k + 1 \<le> round_half_even x"
proof -
  have "of_int k \<le> x" using assms(1) by simp
  then have f: "k \<le> \<lfloor>x\<rfloor>" by (simp add: le_floor_iff)
  show ?thesis
  proof (cases "k = \<lfloor>x\<rfloor>")
    case True
    then have "1 / 2 \<le> x - of_int \<lfloor>x\<rfloor>" using assms(1) by simp
    then show ?thesis using True assms(2) by (simp add: round_half_even_def Let_def not_less)
  next
    case False
    then have "k + 1 \<le> \<lfloor>x\<rfloor>" using f by simp
    then show ?thesis by (simp add: round_half_even_def Let_def)
  qed
qed

lemma float32_of_int_lower:
  assumes "1 \<le> n" and "m \<le> round_half_even (of_int n / pow2 (bitlen n - 24))"
  shows "(\<exists>r. float32_of_int n = Finite r \<and> of_int m * pow2 (bitlen n - 24) \<le> r) \<or>
         float32_of_int n = PosInf"
proof -
  let ?q = "of_int n :: rat"
  have q: "?q \<noteq> 0" "\<bar>?q\<bar> = ?q" "0 < ?q" using assms(1) by simp_all
  define u where "u = pow2 (bitlen n - 24)"
  define r where "r = of_int (round_half_even (?q / u)) * u"
  have b: "0 \<le> bitlen n - 1" using bitlen_pos [OF assms(1)] by simp
  have e: "max (ilog2 \<bar>?q\<bar>) (- 126) - (int 24 - 1) = bitlen n - 24"
    using b by (simp add: q ilog2_of_int [OF assms(1)])
  have u0: "0 < u" by (simp add: u_def pow2_pos)
  have "of_int m * u \<le> r" using assms(2) u0 by (simp add: r_def u_def)
  moreover have "float32_of_int n =
      (if pow2 (127 + 1) \<le> \<bar>r\<bar> then (if 0 < ?q then PosInf else NegInf) else Finite r)"
    unfolding float32_of_int_def float32_def fp_round_def Let_def e r_def u_def
    using q(1) by (simp only: if_False)
  ultimately show ?thesis using q(3) by (auto simp: u_def)
qed

text \<open>
  The test at \<open>xeta = 2\<close> and an ETA of 10 s. The product is 20 s exactly; a
  \<open>float32\<close> between 2 ^ 34 and 2 ^ 35 is a multiple of 2048, and 20 s + 1024 ns is the first reading
  that rounds above 20 s.
\<close>

lemma float32_after_20s:
  assumes "20 * Second + 1024 \<le> d"
  shows "fp_less (Finite 20000000000) (float32_of_int d)"
proof -
  have d: "20000001024 \<le> d" using assms by (simp add: Second_def)
  then have d1: "1 \<le> d" by simp
  have "(2::int) ^ 34 \<le> d" using d by simp
  also have "d < 2 ^ nat (bitlen d)" using bitlen_bounds [of d] d1 by simp
  finally have "34 < nat (bitlen d)" using power_strict_increasing_iff [of "2::int" 34 "nat (bitlen d)"]
    by simp
  then have b35: "35 \<le> bitlen d" by simp
  have "\<exists>m. m \<le> round_half_even (of_int d / pow2 (bitlen d - 24)) \<and>
            (20000000000::rat) < of_int m * pow2 (bitlen d - 24)"
  proof (cases "bitlen d = 35")
    case True
    have u: "pow2 (bitlen d - 24) = 2048" unfolding True by (simp add: pow2_def)
    have "of_int 9765625 + 1 / 2 \<le> (of_int d :: rat) / 2048"
    proof -
      have "(of_int 20000001024 :: rat) \<le> of_int d" using d by (simp only: of_int_le_iff)
      then show ?thesis by simp
    qed
    then have "9765625 + 1 \<le> round_half_even (of_int d / 2048)"
      by (rule round_half_even_odd) simp
    then show ?thesis unfolding u by (intro exI [of _ 9765626]) simp
  next
    case False
    then have b36: "36 \<le> bitlen d" using b35 by simp
    let ?u = "pow2 (bitlen d - 24)"
    have u0: "0 < ?u" by (rule pow2_pos)
    have split: "pow2 (bitlen d - 1) = of_int (2 ^ 23) * ?u"
    proof -
      have "pow2 (bitlen d - 1) = 2 powi (23 + (bitlen d - 24))" by (simp add: pow2_powi)
      also have "\<dots> = 2 powi 23 * 2 powi (bitlen d - 24)" by (rule power_int_add) simp
      finally show ?thesis by (simp add: pow2_powi)
    qed
    have "of_int (2 ^ 23) * ?u \<le> of_int d" using pow2_ilog2_le [OF d1] unfolding split .
    then have "of_int (2 ^ 23) \<le> (of_int d :: rat) / ?u" using u0 by (simp add: le_divide_eq)
    then have m: "2 ^ 23 \<le> round_half_even (of_int d / ?u)" by (rule round_half_even_ge)
    have "(20000000000::rat) < 2 ^ 35" by simp
    also have "\<dots> = pow2 35" by (simp add: pow2_def)
    also have "\<dots> \<le> pow2 (bitlen d - 1)" using b36 by (intro pow2_mono) simp
    finally have "(20000000000::rat) < of_int (2 ^ 23) * ?u" unfolding split .
    then show ?thesis using m by blast
  qed
  then obtain m where m: "m \<le> round_half_even (of_int d / pow2 (bitlen d - 24))"
    "(20000000000::rat) < of_int m * pow2 (bitlen d - 24)" by blast
  show ?thesis using float32_of_int_lower [OF d1 m(1)] m(2) by auto
qed

lemma eta_exceeded_after_20s:
  assumes "20 * Second + 1024 \<le> d"
  shows "eta_exceeded (10 * Second) (Finite 2) d"
proof -
  have "fp_mul32 (float32_of_int (10 * Second)) (Finite 2) = Finite 20000000000" by code_simp
  then show ?thesis using float32_after_20s [OF assms] by (simp only: eta_exceeded_def)
qed


text \<open>And an upper bound.\<close>

lemma round_half_even_below:
  assumes "x < of_int k + 1 / 2"
  shows "round_half_even x \<le> k"
proof -
  have "x < of_int (k + 1)" using assms by simp
  then have "\<lfloor>x\<rfloor> < k + 1" by (simp only: floor_less_iff)
  then have f: "\<lfloor>x\<rfloor> \<le> k" by simp
  show ?thesis
  proof (cases "\<lfloor>x\<rfloor> = k")
    case True
    then have "x - of_int \<lfloor>x\<rfloor> < 1 / 2" using assms by simp
    then show ?thesis using True by (simp add: round_half_even_def Let_def)
  next
    case False
    then have "\<lfloor>x\<rfloor> + 1 \<le> k" using f by simp
    then show ?thesis by (simp add: round_half_even_def Let_def)
  qed
qed

lemma float32_of_int_upper:
  assumes "1 \<le> n" and "round_half_even (of_int n / pow2 (bitlen n - 24)) \<le> m"
    and "of_int m * pow2 (bitlen n - 24) < pow2 128"
  shows "\<exists>r. float32_of_int n = Finite r \<and> r \<le> of_int m * pow2 (bitlen n - 24)"
proof -
  let ?q = "of_int n :: rat"
  have q: "?q \<noteq> 0" "\<bar>?q\<bar> = ?q" "0 < ?q" using assms(1) by simp_all
  define u where "u = pow2 (bitlen n - 24)"
  define r where "r = of_int (round_half_even (?q / u)) * u"
  have b: "0 \<le> bitlen n - 1" using bitlen_pos [OF assms(1)] by simp
  have e: "max (ilog2 \<bar>?q\<bar>) (- 126) - (int 24 - 1) = bitlen n - 24"
    using b by (simp add: q ilog2_of_int [OF assms(1)])
  have u0: "0 < u" by (simp add: u_def pow2_pos)
  have "0 \<le> ?q / u" using q(3) u0 by simp
  then have "0 \<le> round_half_even (?q / u)" using round_half_even_ge [of 0 "?q / u"] by simp
  then have r0: "0 \<le> r" using u0 by (simp add: r_def)
  have ru: "r \<le> of_int m * u" using assms(2) u0 by (simp add: r_def u_def)
  then have "\<bar>r\<bar> < pow2 (127 + 1)" using r0 assms(3) by (simp add: u_def)
  moreover have "float32_of_int n =
      (if pow2 (127 + 1) \<le> \<bar>r\<bar> then (if 0 < ?q then PosInf else NegInf) else Finite r)"
    unfolding float32_of_int_def float32_def fp_round_def Let_def e r_def u_def
    using q(1) by (simp only: if_False)
  ultimately show ?thesis using ru by (auto simp: u_def)
qed

lemma float32_until_20s:
  assumes "d < 20 * Second + 1024"
  shows "\<not> fp_less (Finite 20000000000) (float32_of_int d)"
proof (cases "1 \<le> d")
  case False
  then have "\<not> fp_less (Finite 0) (float32_of_int d)" by (simp add: float32_of_int_pos_iff)
  then show ?thesis by (cases "float32_of_int d") auto
next
  case d1: True
  have d: "d < 20000001024" using assms by (simp add: Second_def)
  have "(2::int) ^ nat (bitlen d - 1) \<le> d" using bitlen_bounds [of d] d1 by simp
  also have "d < 2 ^ 35" using d by simp
  finally have "nat (bitlen d - 1) < 35"
    using power_strict_increasing_iff [of "2::int" "nat (bitlen d - 1)" 35] by simp
  then have b35: "bitlen d \<le> 35" by simp
  have small: "(20000000000::rat) < pow2 128" by (simp add: pow2_def)
  have "\<exists>m. round_half_even (of_int d / pow2 (bitlen d - 24)) \<le> m \<and>
            of_int m * pow2 (bitlen d - 24) \<le> (20000000000::rat)"
  proof (cases "bitlen d = 35")
    case True
    have u: "pow2 (bitlen d - 24) = 2048" unfolding True by (simp add: pow2_def)
    have "(of_int d :: rat) / 2048 < of_int 9765625 + 1 / 2"
    proof -
      have "(of_int d :: rat) < of_int 20000001024" using d by (simp only: of_int_less_iff)
      then show ?thesis by simp
    qed
    then have "round_half_even (of_int d / 2048) \<le> 9765625" by (rule round_half_even_below)
    then show ?thesis unfolding u by (intro exI [of _ 9765625]) simp
  next
    case False
    then have b34: "bitlen d \<le> 34" using b35 by simp
    let ?u = "pow2 (bitlen d - 24)"
    have u0: "0 < ?u" by (rule pow2_pos)
    have b0: "0 \<le> bitlen d" by (rule bitlen_nonneg)
    have split: "pow2 (bitlen d) = of_int (2 ^ 24) * ?u"
    proof -
      have "pow2 (bitlen d) = 2 powi (24 + (bitlen d - 24))" by (simp add: pow2_powi)
      also have "\<dots> = 2 powi 24 * 2 powi (bitlen d - 24)" by (rule power_int_add) simp
      finally show ?thesis by (simp add: pow2_powi)
    qed
    have "of_int d < (of_int (2 ^ nat (bitlen d)) :: rat)"
      using bitlen_bounds [of d] d1 by (simp only: of_int_less_iff)
    also have "\<dots> = pow2 (bitlen d)" using b0 by (simp add: pow2_nat)
    finally have "(of_int d :: rat) \<le> of_int (2 ^ 24) * ?u" unfolding split by simp
    then have "(of_int d :: rat) / ?u \<le> of_int (2 ^ 24)" using u0 by (simp add: divide_le_eq)
    then have m: "round_half_even (of_int d / ?u) \<le> 2 ^ 24" by (rule round_half_even_le)
    have "of_int (2 ^ 24) * ?u = pow2 (bitlen d)" by (rule split [symmetric])
    also have "\<dots> \<le> pow2 34" using b34 by (intro pow2_mono)
    also have "\<dots> \<le> 20000000000" by (simp add: pow2_def)
    finally show ?thesis using m by blast
  qed
  then obtain m where m: "round_half_even (of_int d / pow2 (bitlen d - 24)) \<le> m"
    "of_int m * pow2 (bitlen d - 24) \<le> (20000000000::rat)" by blast
  have "of_int m * pow2 (bitlen d - 24) < pow2 128"
    using m(2) small by (rule le_less_trans)
  then obtain r where "float32_of_int d = Finite r" "r \<le> of_int m * pow2 (bitlen d - 24)"
    using float32_of_int_upper [OF d1 m(1)] by blast
  then show ?thesis using m(2) by simp
qed

lemma eta_exceeded_2_10s:
  "eta_exceeded (10 * Second) (Finite 2) d \<longleftrightarrow> 20 * Second + 1024 \<le> d"
proof -
  have "fp_mul32 (float32_of_int (10 * Second)) (Finite 2) = Finite 20000000000" by code_simp
  then have "eta_exceeded (10 * Second) (Finite 2) d \<longleftrightarrow>
      fp_less (Finite 20000000000) (float32_of_int d)" by (simp only: eta_exceeded_def)
  moreover have "fp_less (Finite 20000000000) (float32_of_int d) \<longleftrightarrow> 20 * Second + 1024 \<le> d"
    using float32_after_20s [of d] float32_until_20s [of d] by (cases "20 * Second + 1024 \<le> d") simp_all
  ultimately show ?thesis by (simp only:)
qed

subsection \<open>The events of a run\<close>

lemma adds_and_then:
  assumes "adds P s r" and "\<And>a s'. adds P s' (f a s')"
  shows "adds P s (and_then r f)"
proof (cases r)
  case (Next a s')
  obtain es where es: "s' = emit es s" "\<forall>ev \<in> set es. P ev"
    using assms(1) Next by (auto simp: adds_def)
  obtain es' where es': "state_of (f a s') = emit es' s'" "\<forall>ev \<in> set es'. P ev"
    using assms(2) [of s' a] by (auto simp: adds_def)
  have "state_of (and_then r f) = emit (es @ es') s"
    using Next es(1) es'(1) by (simp add: emit_emit)
  then show ?thesis unfolding adds_def using es(2) es'(2) by (intro exI [of _ "es @ es'"]) auto
qed (use assms(1) in \<open>simp_all add: adds_def\<close>)

lemma adds_after_emit:
  assumes "adds P (emit es s) r" and "\<forall>ev \<in> set es. P ev"
  shows "adds P s r"
proof -
  obtain es' where es': "state_of r = emit es' (emit es s)" "\<forall>ev \<in> set es'. P ev"
    using assms(1) by (auto simp: adds_def)
  then have "state_of r = emit (es @ es') s" by (simp add: emit_emit)
  then show ?thesis unfolding adds_def using es'(2) assms(2) by (intro exI [of _ "es @ es'"]) auto
qed

lemma adds_emit: "\<forall>ev \<in> set es. P ev \<Longrightarrow> adds P s (Next a (emit es s))"
  "\<forall>ev \<in> set es. P ev \<Longrightarrow> adds P s (Pending (emit es s) :: 'a step)"
  "\<forall>ev \<in> set es. P ev \<Longrightarrow> adds P s (Exit (emit es s) :: 'a step)"
  by (auto simp: adds_def)

lemma adds_checkResponse: "adds is_polling s (checkResponse e res err s)"
proof (cases rule: checkResponse_cases [of e res err s])
  case (1 es)
  then show ?thesis by (simp add: adds_emit(3) is_polling_simps)
next
  case (2 es)
  then show ?thesis by (simp add: adds_emit(1) is_polling_simps)
qed

lemma adds_fetch_metrics: "adds is_polling s (fetch_metrics e r s)"
proof (cases rule: fetch_metrics_cases [of e r s])
  case (1 es)
  then show ?thesis by (simp add: adds_emit(3) is_polling_simps)
next
  case (2 es m)
  then show ?thesis by (simp add: adds_emit(1) is_polling_simps)
qed

lemma adds_poll: "adds is_polling s (poll e t eta rs i m s)"
  using poll_events [of e t eta rs i m s] by (auto simp: adds_def)

lemma after_targets_simps:
  "is_polling ev \<Longrightarrow> after_targets ev" "after_targets ev \<Longrightarrow> \<not> is_targets ev"
  by (cases ev rule: after_targets.cases; simp add: is_polling_simps)+

lemma adds_mono: "adds P s r \<Longrightarrow> (\<And>ev. P ev \<Longrightarrow> Q ev) \<Longrightarrow> adds Q s r"
  by (auto simp: adds_def)

text \<open>What runTraffic does once the targets are logged.\<close>

lemma run_tail: "adds after_targets s3 (runTraffic_polling e t eta s3)"
proof (cases "get_metrics_results e")
  case Nil
  then show ?thesis by (simp add: runTraffic_polling_def adds_emit)
next
  case (Cons r rs)
  have stop: "adds after_targets s5
      (and_then (checkResponse e res err (emit [LogInfo ''Stopping traffic...'', SetTransmitState STOP] s5))
         (\<lambda>u s6. Next () (emit [LogInfo ''stopped.''] s6)))" for s5 res err
  proof (rule adds_after_emit [where es = "[LogInfo ''Stopping traffic...'', SetTransmitState STOP]"])
    show "adds after_targets (emit [LogInfo ''Stopping traffic...'', SetTransmitState STOP] s5)
      (and_then (checkResponse e res err (emit [LogInfo ''Stopping traffic...'', SetTransmitState STOP] s5))
         (\<lambda>u s6. Next () (emit [LogInfo ''stopped.''] s6)))"
      by (intro adds_and_then adds_mono [OF adds_checkResponse] adds_emit) (simp_all add: after_targets_simps)
  qed simp
  show ?thesis unfolding runTraffic_polling_def Cons list.case
    by (intro adds_and_then adds_mono [OF adds_fetch_metrics] adds_mono [OF adds_poll] stop)
       (simp_all add: after_targets_simps)
qed

lemma check_acknowledged:
  assumes "acknowledged r"
  shows "checkResponse e (warning_response (fst r)) (snd r) s =
           Next () (emit (map (\<lambda>w. LogInfo (''WARNING:'' @ w)) (the (fst r))) s)"
  using assms by (auto simp: acknowledged_def checkResponse_def warning_response_def)

lemma check_refused:
  assumes "\<not> acknowledged r"
  shows "\<exists>msg. checkResponse e (warning_response (fst r)) (snd r) s = Exit (emit [LogFatal msg] s)"
  using assms
  by (cases "snd r"; cases "fst r") (auto simp: acknowledged_def checkResponse_def warning_response_def)

subsection \<open>The readings a check takes\<close>

lemma scan_flows_eta_clear:
  "\<forall>j < length fms. \<not> eta_exceeded eta x (since (k + j)) \<Longrightarrow>
   scan_flows_eta eta x since fms k r = (scan_flows fms r, [])"
proof (induction fms arbitrary: k r)
  case Nil
  show ?case by simp
next
  case (Cons fm fms)
  have first: "\<not> eta_exceeded eta x (since k)" using Cons.prems by force
  have rest: "\<forall>j < length fms. \<not> eta_exceeded eta x (since (k + 1 + j))"
  proof (intro allI impI)
    fix j assume "j < length fms"
    then have "Suc j < length (fm # fms)" by simp
    then have "\<not> eta_exceeded eta x (since (k + Suc j))" using Cons.prems by blast
    then show "\<not> eta_exceeded eta x (since (k + 1 + j))" by simp
  qed
  show ?case using first Cons.IH [OF rest] by (simp add: Let_def)
qed

lemma scan_flows_eta_hit:
  "\<exists>j < length fms. eta_exceeded eta x (since (k + j)) \<Longrightarrow>
   fst (scan_flows_eta eta x since fms k r) = False \<and>
   length (filter is_forced_stop (snd (scan_flows_eta eta x since fms k r))) = 1"
proof (induction fms arbitrary: k r)
  case Nil
  then show ?case by simp
next
  case (Cons fm fms)
  show ?case
  proof (cases "eta_exceeded eta x (since k)")
    case True
    then show ?thesis by (simp add: Let_def)
  next
    case False
    obtain j where j: "j < length (fm # fms)" "eta_exceeded eta x (since (k + j))"
      using Cons.prems by blast
    then have "j \<noteq> 0" using False by (cases j) auto
    then obtain j' where j': "j = Suc j'" by (cases j) auto
    have "\<exists>i < length fms. eta_exceeded eta x (since (k + 1 + i))"
      using j j' by (intro exI [of _ j']) simp
    then show ?thesis using False Cons.IH [of "k + 1"] by (simp add: Let_def)
  qed
qed

lemma with_eta_hit:
  assumes "\<exists>k < readings s mr. eta_exceeded eta (xeta s) (since k)"
  shows "fst (isTrafficRunningWithETA mr t since eta s) = False \<and>
         forced_stops (snd (isTrafficRunningWithETA mr t since eta s)) = forced_stops s + 1"
proof -
  consider (p) "otgMetrics s = ''port''" | (f) "otgMetrics s = ''flow''"
    | (o) "otgMetrics s \<noteq> ''port''" "otgMetrics s \<noteq> ''flow''" by blast
  then show ?thesis
  proof cases
    case p
    then have "eta_exceeded eta (xeta s) (since 0)" using assms by (simp add: readings_def)
    then have "isTrafficRunningWithETA mr t since eta s =
        (False, emit [LogWarnForced None (since 1) (xeta s)] s)"
      using p by (simp add: isTrafficRunningWithETA_def)
    then show ?thesis by (simp add: forced_stops_emit)
  next
    case f
    let ?r = "scan_flows_eta eta (xeta s) since (flow_metrics mr) 0 False"
    have "\<exists>j < length (flow_metrics mr). eta_exceeded eta (xeta s) (since (0 + j))"
      using assms f by (simp add: readings_def)
    then have h: "fst ?r = False" "length (filter is_forced_stop (snd ?r)) = 1"
      using scan_flows_eta_hit [of "flow_metrics mr" eta "xeta s" since 0 False] by blast+
    have "isTrafficRunningWithETA mr t since eta s = (fst ?r, emit (snd ?r) s)"
      using f by (simp add: isTrafficRunningWithETA_def case_prod_beta)
    then show ?thesis using h by (simp add: forced_stops_emit)
  next
    case o
    then show ?thesis using assms by (simp add: readings_def)
  qed
qed

lemma with_eta_clear:
  assumes "\<forall>k < readings s mr. \<not> eta_exceeded eta (xeta s) (since k)"
  shows "isTrafficRunningWithETA mr t since eta s = (isTrafficRunning mr t s, s)"
proof -
  consider (p) "otgMetrics s = ''port''" | (f) "otgMetrics s = ''flow''"
    | (o) "otgMetrics s \<noteq> ''port''" "otgMetrics s \<noteq> ''flow''" by blast
  then show ?thesis
  proof cases
    case p
    then have "\<not> eta_exceeded eta (xeta s) (since 0)" using assms by (simp add: readings_def)
    then show ?thesis using p by (simp add: isTrafficRunningWithETA_def isTrafficRunning_def)
  next
    case f
    have "\<forall>j < length (flow_metrics mr). \<not> eta_exceeded eta (xeta s) (since (0 + j))"
      using assms f by (simp add: readings_def)
    then have "scan_flows_eta eta (xeta s) since (flow_metrics mr) 0 False =
        (scan_flows (flow_metrics mr) False, [])" by (rule scan_flows_eta_clear)
    then show ?thesis using f by (simp add: isTrafficRunningWithETA_def isTrafficRunning_def)
  next
    case o
    then show ?thesis by (simp add: isTrafficRunningWithETA_def isTrafficRunning_def)
  qed
qed

subsection \<open>The tests of the polling loop\<close>

lemma trafficRunning_reads:
  assumes "otgMetrics s' = otgMetrics s" "xeta s' = xeta s"
  shows "fst (trafficRunning m t since eta s') = fst (trafficRunning m t since eta s)"
  using with_eta_reads [OF assms] running_reads [OF assms(1)]
  unfolding trafficRunning_def assms(2) by simp

lemma loop_tests_reads:
  assumes "otgMetrics s' = otgMetrics s" "xeta s' = xeta s"
  shows "loop_tests e t eta s' i ms = loop_tests e t eta s i ms"
  by (induction ms arbitrary: i) (simp_all add: trafficRunning_reads [OF assms])

lemma fetch_good:
  assumes "good_answer e r"
  obtains mr j where "fst r = Some mr"
    "fetch_metrics e r s = Next mr (emit [GetMetrics (metrics_request s), Stdout j] s)"
proof -
  obtain mr where mr: "fst r = Some mr" "snd r = None"
    using assms by (auto simp: good_answer_def split: option.splits)
  obtain j where j: "to_json e mr = Inr j"
    using assms mr by (auto simp: good_answer_def split: sum.splits)
  have "fetch_metrics e r s = Next mr (emit [GetMetrics (metrics_request s), Stdout j] s)"
    using mr j
    by (simp add: fetch_metrics_def checkResponse_def metrics_response_of_def
        printMetricsResponseRawJson_def emit_emit)
  then show ?thesis using that mr(1) by blast
qed

lemma filter_get_polling_forced:
  "\<forall>ev \<in> set ws. is_forced_stop ev \<Longrightarrow> filter is_get_metrics ws = []"
proof (induction ws)
  case Nil
  show ?case by simp
next
  case (Cons w ws)
  then show ?case by (cases w) simp_all
qed

lemma poll_tests:
  assumes "\<forall>r \<in> set rs. good_answer e r"
  shows "\<exists>es. state_of (poll e t eta rs i m s) = emit es s \<and>
           length (filter is_get_metrics es) =
             length (takeWhile (\<lambda>b. b) (loop_tests e t eta s i (m # map (the \<circ> fst) rs))) \<and>
           (is_next (poll e t eta rs i m s) \<longleftrightarrow>
              \<not> list_all (\<lambda>b. b) (loop_tests e t eta s i (m # map (the \<circ> fst) rs)))"
  using assms
proof (induction rs arbitrary: i m s)
  case Nil
  show ?case
  proof (cases rule: trafficRunning_cases [of m t "since_start e i" eta s])
    case 1
    then show ?thesis
      by (intro exI [of _ "[Sleep (otgPullInterval s), GetMetrics (metrics_request s)]"]) simp
  next
    case (2 ws)
    then show ?thesis using filter_get_polling_forced [OF 2(3)] by (intro exI [of _ ws]) simp
  qed
next
  case (Cons r rs)
  show ?case
  proof (cases rule: trafficRunning_cases [of m t "since_start e i" eta s])
    case 1
    let ?s1 = "emit [Sleep (otgPullInterval s)] s"
    have g: "good_answer e r" and gs: "\<forall>r \<in> set rs. good_answer e r" using Cons.prems by simp_all
    obtain mr j where mr: "fst r = Some mr"
      "fetch_metrics e r ?s1 = Next mr (emit [GetMetrics (metrics_request ?s1), Stdout j] ?s1)"
      using fetch_good [OF g] by blast
    let ?es = "[Sleep (otgPullInterval s), GetMetrics (metrics_request ?s1), Stdout j]"
    have p: "poll e t eta (r # rs) i m s = poll e t eta rs (i + 1) mr (emit ?es s)"
      using 1 mr(2) by (simp add: emit_emit)
    obtain es' where es': "state_of (poll e t eta rs (i + 1) mr (emit ?es s)) = emit es' (emit ?es s)"
      "length (filter is_get_metrics es') =
         length (takeWhile (\<lambda>b. b) (loop_tests e t eta (emit ?es s) (i + 1) (mr # map (the \<circ> fst) rs)))"
      "is_next (poll e t eta rs (i + 1) mr (emit ?es s)) \<longleftrightarrow>
         \<not> list_all (\<lambda>b. b) (loop_tests e t eta (emit ?es s) (i + 1) (mr # map (the \<circ> fst) rs))"
      using Cons.IH [OF gs, of "i + 1" mr "emit ?es s"] by blast
    have same: "loop_tests e t eta (emit ?es s) (i + 1) (mr # map (the \<circ> fst) rs) =
        loop_tests e t eta s (i + 1) (mr # map (the \<circ> fst) rs)"
      by (rule loop_tests_reads) simp_all
    have tests: "loop_tests e t eta s i (m # map (the \<circ> fst) (r # rs)) =
        True # loop_tests e t eta s (i + 1) (mr # map (the \<circ> fst) rs)"
      using 1 mr(1) by simp
    have "state_of (poll e t eta (r # rs) i m s) = emit (?es @ es') s"
      unfolding p es'(1) by (simp add: emit_emit)
    moreover have "length (filter is_get_metrics (?es @ es')) =
        length (takeWhile (\<lambda>b. b) (loop_tests e t eta s i (m # map (the \<circ> fst) (r # rs))))"
      unfolding tests using es'(2) same by simp
    moreover have "is_next (poll e t eta (r # rs) i m s) \<longleftrightarrow>
        \<not> list_all (\<lambda>b. b) (loop_tests e t eta s i (m # map (the \<circ> fst) (r # rs)))"
      unfolding tests p using es'(3) same by simp
    ultimately show ?thesis by blast
  next
    case (2 ws)
    then show ?thesis using filter_get_polling_forced [OF 2(3)] by (intro exI [of _ ws]) simp
  qed
qed

lemma emit_same: "emit es s = emit es' s \<Longrightarrow> es = es'"
proof -
  assume "emit es s = emit es' s"
  then have "emitted (emit es s) = emitted (emit es' s)" by simp
  then show ?thesis by simp
qed

lemma filter_get_output:
  "\<forall>ev \<in> set es. is_output ev \<Longrightarrow> filter is_get_metrics es = []"
proof (induction es)
  case Nil
  show ?case by simp
next
  case (Cons ev es)
  then show ?case by (cases ev) simp_all
qed

lemma polling_not_stop: "is_polling ev \<Longrightarrow> ev \<noteq> SetTransmitState STOP"
  by (cases ev) auto

lemma output_not_stop: "is_output ev \<Longrightarrow> ev \<noteq> SetTransmitState STOP"
  by (cases ev) auto

lemma run_polling_tests:
  assumes "\<forall>r \<in> set (get_metrics_results e). good_answer e r"
  shows "\<exists>post. state_of (runTraffic_polling e t eta s3) = emit post s3 \<and>
           length (filter is_get_metrics post) =
             Suc (length (takeWhile (\<lambda>b. b)
                    (loop_tests e t eta s3 0 (map (the \<circ> fst) (get_metrics_results e))))) \<and>
           (SetTransmitState STOP \<in> set post \<longleftrightarrow>
              \<not> list_all (\<lambda>b. b)
                  (loop_tests e t eta s3 0 (map (the \<circ> fst) (get_metrics_results e))))"
proof (cases "get_metrics_results e")
  case Nil
  then have "state_of (runTraffic_polling e t eta s3) = emit [GetMetrics (metrics_request s3)] s3"
    by (simp add: runTraffic_polling_def)
  then show ?thesis using Nil by (intro exI [of _ "[GetMetrics (metrics_request s3)]"]) simp
next
  case (Cons r rs)
  have g: "good_answer e r" and gs: "\<forall>r \<in> set rs. good_answer e r" using assms Cons by simp_all
  obtain mr j where mr: "fst r = Some mr"
    "fetch_metrics e r s3 = Next mr (emit [GetMetrics (metrics_request s3), Stdout j] s3)"
    using fetch_good [OF g] by blast
  let ?a = "[GetMetrics (metrics_request s3), Stdout j]"
  let ?s4 = "emit ?a s3"
  let ?tests = "loop_tests e t eta s3 0 (map (the \<circ> fst) (get_metrics_results e))"
  let ?p = "poll e t eta rs 0 mr ?s4"
  obtain es where es: "state_of ?p = emit es ?s4"
    "length (filter is_get_metrics es) =
       length (takeWhile (\<lambda>b. b) (loop_tests e t eta ?s4 0 (mr # map (the \<circ> fst) rs)))"
    "is_next ?p \<longleftrightarrow> \<not> list_all (\<lambda>b. b) (loop_tests e t eta ?s4 0 (mr # map (the \<circ> fst) rs))"
    using poll_tests [OF gs, of t eta 0 mr ?s4] by blast
  obtain es0 where es0: "state_of ?p = emit es0 ?s4" "\<forall>ev \<in> set es0. is_polling ev"
    using poll_events [of e t eta rs 0 mr ?s4] by blast
  have "es0 = es" using es(1) es0(1) emit_same by metis
  then have pol: "\<forall>ev \<in> set es. is_polling ev" using es0(2) by simp
  have tests: "loop_tests e t eta ?s4 0 (mr # map (the \<circ> fst) rs) = ?tests"
    unfolding Cons using mr(1) by (simp add: loop_tests_reads [of ?s4 s3] trafficRunning_reads [of ?s4 s3])
  have rp: "runTraffic_polling e t eta s3 =
      and_then ?p
        (\<lambda>u s5. and_then (checkResponse e (warning_response (fst (set_transmit_result e STOP)))
                      (snd (set_transmit_result e STOP))
                      (emit [LogInfo ''Stopping traffic...'', SetTransmitState STOP] s5))
                   (\<lambda>u s6. Next () (emit [LogInfo ''stopped.''] s6)))"
    using Cons mr(2) by (simp add: runTraffic_polling_def)
  have nostop: "SetTransmitState STOP \<notin> set (?a @ es)" using pol polling_not_stop by auto
  have cnt: "length (filter is_get_metrics (?a @ es)) = Suc (length (takeWhile (\<lambda>b. b) ?tests))"
    using es(2) [unfolded tests] by simp
  have nxt: "is_next ?p \<longleftrightarrow> \<not> list_all (\<lambda>b. b) ?tests"
    by (rule es(3) [unfolded tests])
  show ?thesis
  proof (cases ?p)
    case (Next u s5)
    then have s5: "s5 = emit es ?s4" using es(1) by simp
    let ?b = "[LogInfo ''Stopping traffic...'', SetTransmitState STOP]"
    have nx: "\<not> list_all (\<lambda>b. b) ?tests" using nxt Next by simp
    obtain es2 where es2: "state_of (runTraffic_polling e t eta s3) = emit es2 (emit ?b s5)"
      "\<forall>ev \<in> set es2. is_output ev"
    proof (cases rule: checkResponse_cases [of e
          "warning_response (fst (set_transmit_result e STOP))" "snd (set_transmit_result e STOP)"
          "emit ?b s5"])
      case (1 es2)
      then have "state_of (runTraffic_polling e t eta s3) = emit es2 (emit ?b s5)"
        unfolding rp Next by simp
      then show ?thesis using that 1(2) by blast
    next
      case (2 es2)
      then have "state_of (runTraffic_polling e t eta s3) =
          emit (es2 @ [LogInfo ''stopped.'']) (emit ?b s5)"
        unfolding rp Next by (simp add: emit_emit)
      moreover have "\<forall>ev \<in> set (es2 @ [LogInfo ''stopped.'']). is_output ev" using 2(2) by simp
      ultimately show ?thesis using that by blast
    qed
    have st: "state_of (runTraffic_polling e t eta s3) = emit (?a @ es @ ?b @ es2) s3"
      unfolding es2(1) s5 by (simp add: emit_emit)
    have "length (filter is_get_metrics (?a @ es @ ?b @ es2)) =
        Suc (length (takeWhile (\<lambda>b. b) ?tests))"
      using cnt filter_get_output [OF es2(2)] by simp
    moreover have "SetTransmitState STOP \<in> set (?a @ es @ ?b @ es2)" by simp
    ultimately show ?thesis using st nx by blast
  next
    case (Exit s5)
    then have all: "list_all (\<lambda>b. b) ?tests" using nxt by simp
    have "state_of (runTraffic_polling e t eta s3) = emit (?a @ es) s3"
      unfolding rp using Exit es(1) by (simp add: emit_emit)
    then show ?thesis using cnt nostop all by blast
  next
    case (Pending s5)
    then have all: "list_all (\<lambda>b. b) ?tests" using nxt by simp
    have "state_of (runTraffic_polling e t eta s3) = emit (?a @ es) s3"
      unfolding rp using Pending es(1) by (simp add: emit_emit)
    then show ?thesis using cnt nostop all by blast
  qed
qed

subsection \<open>The rounding error and the timeout test\<close>

text \<open>The error of rounding: half a unit in the last place, at most.\<close>

lemma round_half_even_err: "\<bar>of_int (round_half_even y) - y\<bar> \<le> 1 / 2"
proof -
  have "of_int \<lfloor>y\<rfloor> \<le> y" "y < of_int \<lfloor>y\<rfloor> + 1" by linarith+
  then show ?thesis by (auto simp: round_half_even_def Let_def)
qed

lemma pow2_ilog2:
  assumes "0 < q"
  shows "pow2 (ilog2 q) \<le> q"
proof (cases "1 \<le> q")
  case True
  then have f: "1 \<le> \<lfloor>q\<rfloor>" by simp
  have "pow2 (bitlen \<lfloor>q\<rfloor> - 1) \<le> of_int \<lfloor>q\<rfloor>" by (rule pow2_ilog2_le [OF f])
  also have "\<dots> \<le> q" by simp
  finally show ?thesis using True by (simp add: ilog2_def)
next
  case False
  then have q1: "q < 1" by simp
  define c where "c = \<lceil>1 / q\<rceil>"
  have "1 < 1 / q" using assms q1 by simp
  then have "1 < c" unfolding c_def by (simp add: less_ceiling_iff)
  then have c1: "0 < c - 1" by simp
  have "c - 1 < 2 ^ nat (bitlen (c - 1))" using bitlen_bounds [OF c1] by simp
  then have "c \<le> 2 ^ nat (bitlen (c - 1))" by simp
  then have "(of_int c :: rat) \<le> of_int (2 ^ nat (bitlen (c - 1)))" by (simp only: of_int_le_iff)
  then have "(of_int c :: rat) \<le> 2 ^ nat (bitlen (c - 1))" by simp
  moreover have "1 / q \<le> of_int c" unfolding c_def by simp
  ultimately have "1 / q \<le> 2 ^ nat (bitlen (c - 1))" by (rule order_trans [rotated])
  then have "1 / 2 ^ nat (bitlen (c - 1)) \<le> q" using assms
    by (simp add: field_simps)
  moreover have "pow2 (- bitlen (c - 1)) = 1 / 2 ^ nat (bitlen (c - 1))"
    using bitlen_nonneg [of "c - 1"] pow2_nonpos [of "- bitlen (c - 1)"] by simp
  ultimately show ?thesis using False by (simp add: ilog2_def c_def)
qed

lemma pow2_diff: "pow2 (e - int n) = pow2 e / 2 ^ n"
proof -
  have "pow2 (e - int n) = 2 powi (e + - int n)" by (simp add: pow2_powi)
  also have "\<dots> = 2 powi e * 2 powi (- int n)" by (rule power_int_add) simp
  also have "\<dots> = pow2 e / 2 ^ n" by (simp add: pow2_powi power_int_minus field_simps)
  finally show ?thesis .
qed

lemma fp_round_err:
  assumes "0 < q" and "pow2 emin \<le> q" and "1 \<le> p"
    and "q + q / 2 ^ p < pow2 (emax + 1)"
  shows "\<exists>r. fp_round p emin emax q = Finite r \<and> \<bar>r - q\<bar> \<le> q / 2 ^ p"
proof -
  define e where "e = max (ilog2 \<bar>q\<bar>) emin"
  define u where "u = pow2 (e - (int p - 1))"
  define r where "r = of_int (round_half_even (q / u)) * u"
  have q: "q \<noteq> 0" "\<bar>q\<bar> = q" using assms(1) by simp_all
  have u0: "0 < u" by (simp add: u_def pow2_pos)
  have "pow2 e \<le> q" using pow2_ilog2 [OF assms(1)] assms(2) by (simp add: e_def q max_def)
  moreover have "u = pow2 e / 2 ^ (p - 1)"
  proof -
    have "e - (int p - 1) = e - int (p - 1)" using assms(3) by simp
    then show ?thesis unfolding u_def using pow2_diff [of e "p - 1"] by simp
  qed
  ultimately have "u \<le> q / 2 ^ (p - 1)" by (simp add: divide_right_mono)
  moreover have "(2::rat) ^ p = 2 * 2 ^ (p - 1)" using assms(3) by (cases p) simp_all
  ultimately have half: "u / 2 \<le> q / 2 ^ p" by (simp add: field_simps)
  have "r - q = (of_int (round_half_even (q / u)) - q / u) * u" using u0 by (simp add: r_def field_simps)
  then have "\<bar>r - q\<bar> = \<bar>of_int (round_half_even (q / u)) - q / u\<bar> * u"
    using u0 by (simp add: abs_mult)
  also have "\<dots> \<le> 1 / 2 * u" using round_half_even_err [of "q / u"] u0 by (intro mult_right_mono) simp_all
  finally have "\<bar>r - q\<bar> \<le> u / 2" by simp
  then have err: "\<bar>r - q\<bar> \<le> q / 2 ^ p" using half by (rule order_trans)
  then have "\<bar>r\<bar> \<le> q + q / 2 ^ p" using assms(1) by linarith
  then have "\<not> pow2 (emax + 1) \<le> \<bar>r\<bar>" using assms(4) by linarith
  moreover have "fp_round p emin emax q =
      (if pow2 (emax + 1) \<le> \<bar>r\<bar> then (if 0 < q then PosInf else NegInf) else Finite r)"
    unfolding fp_round_def Let_def r_def u_def e_def using q(1) by (simp only: if_False)
  ultimately show ?thesis using err by simp
qed

lemma float32_err:
  assumes "1 / 2 ^ 101 \<le> q" and "q \<le> 2 ^ 124"
  shows "\<exists>r. float32 q = Finite r \<and> \<bar>r - q\<bar> \<le> q / 2 ^ 24"
proof -
  have q0: "0 < q" using assms(1) by (rule less_le_trans [rotated]) simp
  have "pow2 (- 126) \<le> 1 / 2 ^ 101" by (simp add: pow2_def)
  then have lo: "pow2 (- 126) \<le> q" using assms(1) by (rule order_trans)
  have "q / 2 ^ 24 \<le> q" using q0 by (simp add: field_simps)
  then have "q + q / 2 ^ 24 \<le> 2 ^ 124 + 2 ^ 124" using assms(2) by linarith
  also have "\<dots> < pow2 (127 + 1)" by (simp add: pow2_def)
  finally have hi: "q + q / 2 ^ 24 < pow2 (127 + 1)" .
  show ?thesis unfolding float32_def by (rule fp_round_err [OF q0 lo _ hi]) simp
qed

lemma float32_of_int_err:
  assumes "1 \<le> n" and "n < 2 ^ 63"
  shows "\<exists>r. float32_of_int n = Finite r \<and> \<bar>r - of_int n\<bar> \<le> of_int n / 2 ^ 24"
proof -
  have "(1::rat) \<le> of_int n" using assms(1) by simp
  then have lo: "1 / 2 ^ 101 \<le> (of_int n :: rat)" by (rule order_trans [rotated]) simp
  have "(of_int n :: rat) < of_int (2 ^ 63)" using assms(2) by (simp only: of_int_less_iff)
  then have hi: "(of_int n :: rat) \<le> 2 ^ 124" by simp
  show ?thesis unfolding float32_of_int_def by (rule float32_err [OF lo hi])
qed

lemma rel_err_bounds:
  fixes q r :: rat
  assumes "\<bar>r - q\<bar> \<le> q / 2 ^ 24"
  shows "q * (1 - 1 / 2 ^ 24) \<le> r" and "r \<le> q * (1 + 1 / 2 ^ 24)"
proof -
  have a: "r - q \<le> q / 2 ^ 24" and b: "q - r \<le> q / 2 ^ 24" using assms by linarith+
  have c: "q * (1 - 1 / 2 ^ 24) = q - q / 2 ^ 24" "q * (1 + 1 / 2 ^ 24) = q + q / 2 ^ 24"
    by (simp_all add: algebra_simps)
  show "q * (1 - 1 / 2 ^ 24) \<le> r" unfolding c using b by linarith
  show "r \<le> q * (1 + 1 / 2 ^ 24)" unfolding c using a by linarith
qed

lemma fp_less_nonneg: "fp_less (Finite a) y \<Longrightarrow> 0 \<le> a \<Longrightarrow> fp_less (Finite 0) y"
  by (cases y) auto

text \<open>
  The test against elapsed time and ETA times xeta: the two agree except within a relative
  \<open>2\<^sup>-\<^sup>2\<^sup>2\<close> of the bound.
\<close>

lemma eta_exceeded_bounds:
  assumes "1 \<le> eta" "eta < 2 ^ 63" "d < 2 ^ 63" "1 / 2 ^ 100 \<le> x" "x \<le> 2 ^ 60"
  shows "(of_int eta * x * (1 + 1 / 2 ^ 22) < of_int d \<longrightarrow> eta_exceeded eta (Finite x) d) \<and>
         (eta_exceeded eta (Finite x) d \<longrightarrow> of_int eta * x * (1 - 1 / 2 ^ 22) < of_int d)"
proof -
  define E where "E = of_int eta * x"
  define dd :: rat where "dd = of_int d"
  have x0: "0 < x" using assms(4) by (rule less_le_trans [rotated]) simp
  have e1: "(1::rat) \<le> of_int eta" using assms(1) by simp
  have e63: "(of_int eta :: rat) \<le> 2 ^ 63"
  proof -
    have "(of_int eta :: rat) < of_int (2 ^ 63)" using assms(2) by (simp only: of_int_less_iff)
    then show ?thesis by simp
  qed
  have E0: "0 < E" unfolding E_def using e1 x0 by simp
  obtain ra where ra: "float32_of_int eta = Finite ra" "\<bar>ra - of_int eta\<bar> \<le> of_int eta / 2 ^ 24"
    using float32_of_int_err [OF assms(1,2)] by blast
  have ra_lo: "of_int eta * (1 - 1 / 2 ^ 24) \<le> ra" and ra_hi: "ra \<le> of_int eta * (1 + 1 / 2 ^ 24)"
    using rel_err_bounds [OF ra(2)] by blast+
  have "ra * x \<le> (of_int eta * (1 + 1 / 2 ^ 24)) * x" using ra_hi x0 by (intro mult_right_mono) simp_all
  then have p_hi: "ra * x \<le> E * (1 + 1 / 2 ^ 24)" by (simp add: E_def algebra_simps)
  have "(of_int eta * (1 - 1 / 2 ^ 24)) * x \<le> ra * x" using ra_lo x0 by (intro mult_right_mono) simp_all
  then have p_lo: "E * (1 - 1 / 2 ^ 24) \<le> ra * x" by (simp add: E_def algebra_simps)
  have "(1::rat) / 2 \<le> of_int eta * (1 - 1 / 2 ^ 24)" using e1 by simp
  then have "1 / 2 \<le> ra" using ra_lo by (rule order_trans)
  then have "1 / 2 * (1 / 2 ^ 100) \<le> ra * x" using assms(4) by (intro mult_mono) simp_all
  then have n_lo: "1 / 2 ^ 101 \<le> ra * x" by simp
  have "of_int eta * (1 + 1 / 2 ^ 24) \<le> 2 ^ 63 * (1 + 1 / 2 ^ 24 :: rat)"
    using e63 by (intro mult_right_mono) simp_all
  then have "ra \<le> 2 ^ 63 * (1 + 1 / 2 ^ 24)" using ra_hi by (rule order_trans [rotated])
  then have "ra \<le> 2 ^ 64" by simp
  moreover have "0 \<le> ra" using \<open>1 / 2 \<le> ra\<close> by simp
  ultimately have "ra * x \<le> 2 ^ 64 * 2 ^ 60" using assms(5) x0 by (intro mult_mono) simp_all
  then have n_hi: "ra * x \<le> 2 ^ 124" by simp
  obtain rp where rp: "float32 (ra * x) = Finite rp" "\<bar>rp - ra * x\<bar> \<le> ra * x / 2 ^ 24"
    using float32_err [OF n_lo n_hi] by blast
  have rp_hi: "rp \<le> ra * x * (1 + 1 / 2 ^ 24)" and rp_lo: "ra * x * (1 - 1 / 2 ^ 24) \<le> rp"
    using rel_err_bounds [OF rp(2)] by blast+
  have rp0: "0 \<le> rp"
  proof -
    have "0 \<le> ra * x * (1 - 1 / 2 ^ 24)" using n_lo by simp
    then show ?thesis using rp_lo by linarith
  qed
  have test: "eta_exceeded eta (Finite x) d \<longleftrightarrow> fp_less (Finite rp) (float32_of_int d)"
    by (simp add: eta_exceeded_def ra(1) rp(1))
  show ?thesis
  proof (cases "1 \<le> d")
    case False
    then have "\<not> fp_less (Finite 0) (float32_of_int d)" by (simp add: float32_of_int_pos_iff)
    then have no: "\<not> eta_exceeded eta (Finite x) d" unfolding test using fp_less_nonneg [OF _ rp0] by blast
    have "dd \<le> 0" using False by (simp add: dd_def)
    moreover have "0 < E * (1 + 1 / 2 ^ 22)" using E0 by simp
    ultimately have "\<not> E * (1 + 1 / 2 ^ 22) < dd" by linarith
    then show ?thesis using no by (simp add: E_def dd_def)
  next
    case True
    obtain rd where rd: "float32_of_int d = Finite rd" "\<bar>rd - of_int d\<bar> \<le> of_int d / 2 ^ 24"
      using float32_of_int_err [OF True assms(3)] by blast
    have rd_lo: "dd * (1 - 1 / 2 ^ 24) \<le> rd" and rd_hi: "rd \<le> dd * (1 + 1 / 2 ^ 24)"
      using rel_err_bounds [OF rd(2)] unfolding dd_def by blast+
    have t: "eta_exceeded eta (Finite x) d \<longleftrightarrow> rp < rd" unfolding test rd(1) by simp
    define P where "P = ra * x"
    note f = p_hi [folded P_def] p_lo [folded P_def] rp_hi [folded P_def] rp_lo [folded P_def]
    have a: "rp < rd" if "E * (1 + 1 / 2 ^ 22) < dd"
      using that f rd_lo E0 by (simp add: algebra_simps, linarith?)
    have b: "E * (1 - 1 / 2 ^ 22) < dd" if "rp < rd"
      using that f rd_hi E0 by (simp add: algebra_simps, linarith?)
    show ?thesis using a b unfolding t by (simp add: E_def dd_def)
  qed
qed

subsection \<open>The targets in a run\<close>

lemma targets_order:
  "(acknowledged (set_config_result e cfg) \<and> acknowledged (set_transmit_result e START) \<longrightarrow>
      (\<exists>pre post.
         events_since s (runTraffic e cfg s) =
           pre @ LogTargets (fst (calculateTrafficTargets cfg)) (snd (calculateTrafficTargets cfg))
               # post \<and>
         SetTransmitState START \<in> set pre \<and>
         (\<forall>ev \<in> set pre. \<not> is_targets ev \<and> (\<forall>c. ev \<noteq> GetMetrics c)) \<and>
         (\<forall>ev \<in> set post. \<not> is_targets ev))) \<and>
   (\<not> (acknowledged (set_config_result e cfg) \<and> acknowledged (set_transmit_result e START)) \<longrightarrow>
      (\<forall>ev \<in> set (events_since s (runTraffic e cfg s)).
         \<not> is_targets ev \<and> (\<forall>c. ev \<noteq> GetMetrics c)))"
proof (intro conjI impI)
  assume ack: "acknowledged (set_config_result e cfg) \<and> acknowledged (set_transmit_result e START)"
  let ?w = "\<lambda>r. map (\<lambda>w. LogInfo (''WARNING:'' @ w)) (the (fst r))"
  let ?pre = "[LogInfo ''Applying OTG config...'', SetConfig cfg] @ ?w (set_config_result e cfg) @
      [LogInfo ''ready.'', LogInfo ''Starting traffic...'', SetTransmitState START] @
      ?w (set_transmit_result e START) @ [LogInfo ''started...'']"
  let ?T = "LogTargets (fst (calculateTrafficTargets cfg)) (snd (calculateTrafficTargets cfg))"
  let ?s3 = "emit (?pre @ [?T]) s"
  have rt: "runTraffic e cfg s =
      runTraffic_polling e (fst (calculateTrafficTargets cfg)) (snd (calculateTrafficTargets cfg)) ?s3"
    using ack by (simp add: runTraffic_def check_acknowledged emit_emit case_prod_beta)
  obtain post where post: "state_of (runTraffic e cfg s) = emit post ?s3"
    "\<forall>ev \<in> set post. after_targets ev"
    using run_tail [of ?s3 e] unfolding adds_def rt by blast
  have "state_of (runTraffic e cfg s) = emit (?pre @ ?T # post) s"
    unfolding post(1) by (simp add: emit_emit)
  then have "events_since s (runTraffic e cfg s) = ?pre @ ?T # post" by (rule events_since_emit)
  moreover have "SetTransmitState START \<in> set ?pre" by simp
  moreover have "\<forall>ev \<in> set ?pre. \<not> is_targets ev \<and> (\<forall>c. ev \<noteq> GetMetrics c)" by auto
  moreover have "\<forall>ev \<in> set post. \<not> is_targets ev" using post(2) after_targets_simps(2) by blast
  ultimately show "\<exists>pre post.
         events_since s (runTraffic e cfg s) = pre @ ?T # post \<and>
         SetTransmitState START \<in> set pre \<and>
         (\<forall>ev \<in> set pre. \<not> is_targets ev \<and> (\<forall>c. ev \<noteq> GetMetrics c)) \<and>
         (\<forall>ev \<in> set post. \<not> is_targets ev)" by blast
next
  assume nack: "\<not> (acknowledged (set_config_result e cfg) \<and> acknowledged (set_transmit_result e START))"
  let ?w = "\<lambda>r. map (\<lambda>w. LogInfo (''WARNING:'' @ w)) (the (fst r))"
  show "\<forall>ev \<in> set (events_since s (runTraffic e cfg s)).
         \<not> is_targets ev \<and> (\<forall>c. ev \<noteq> GetMetrics c)"
  proof (cases "acknowledged (set_config_result e cfg)")
    case False
    obtain msg where "checkResponse e (warning_response (fst (set_config_result e cfg)))
        (snd (set_config_result e cfg)) (emit [LogInfo ''Applying OTG config...'', SetConfig cfg] s) =
        Exit (emit [LogFatal msg] (emit [LogInfo ''Applying OTG config...'', SetConfig cfg] s))"
      using check_refused [OF False] by blast
    then have "state_of (runTraffic e cfg s) =
        emit [LogInfo ''Applying OTG config...'', SetConfig cfg, LogFatal msg] s"
      by (simp add: runTraffic_def emit_emit)
    then have "events_since s (runTraffic e cfg s) =
        [LogInfo ''Applying OTG config...'', SetConfig cfg, LogFatal msg]"
      by (rule events_since_emit)
    then show ?thesis by simp
  next
    case True
    then have n2: "\<not> acknowledged (set_transmit_result e START)" using nack by simp
    let ?s2 = "emit [LogInfo ''ready.'', LogInfo ''Starting traffic...'', SetTransmitState START]
        (emit (?w (set_config_result e cfg))
          (emit [LogInfo ''Applying OTG config...'', SetConfig cfg] s))"
    obtain msg where "checkResponse e (warning_response (fst (set_transmit_result e START)))
        (snd (set_transmit_result e START)) ?s2 = Exit (emit [LogFatal msg] ?s2)"
      using check_refused [OF n2] by blast
    then have "state_of (runTraffic e cfg s) =
        emit ([LogInfo ''Applying OTG config...'', SetConfig cfg] @ ?w (set_config_result e cfg) @
          [LogInfo ''ready.'', LogInfo ''Starting traffic...'', SetTransmitState START,
           LogFatal msg]) s"
      by (simp add: runTraffic_def check_acknowledged [OF True] emit_emit)
    then have "events_since s (runTraffic e cfg s) =
        [LogInfo ''Applying OTG config...'', SetConfig cfg] @ ?w (set_config_result e cfg) @
          [LogInfo ''ready.'', LogInfo ''Starting traffic...'', SetTransmitState START,
           LogFatal msg]"
      by (rule events_since_emit)
    then show ?thesis by auto
  qed
qed

lemma run_tests:
  assumes "acknowledged (set_config_result e cfg)" "acknowledged (set_transmit_result e START)"
    and "\<forall>r \<in> set (get_metrics_results e). good_answer e r"
  shows "length (filter is_get_metrics (events_since s (runTraffic e cfg s))) =
           Suc (length (takeWhile (\<lambda>b. b)
                  (loop_tests e (fst (calculateTrafficTargets cfg))
                     (snd (calculateTrafficTargets cfg)) s 0
                     (map (the \<circ> fst) (get_metrics_results e))))) \<and>
         (SetTransmitState STOP \<in> set (events_since s (runTraffic e cfg s)) \<longleftrightarrow>
            \<not> list_all (\<lambda>b. b)
                (loop_tests e (fst (calculateTrafficTargets cfg))
                   (snd (calculateTrafficTargets cfg)) s 0
                   (map (the \<circ> fst) (get_metrics_results e))))"
proof -
  let ?w = "\<lambda>r. map (\<lambda>w. LogInfo (''WARNING:'' @ w)) (the (fst r))"
  let ?pre = "[LogInfo ''Applying OTG config...'', SetConfig cfg] @ ?w (set_config_result e cfg) @
      [LogInfo ''ready.'', LogInfo ''Starting traffic...'', SetTransmitState START] @
      ?w (set_transmit_result e START) @ [LogInfo ''started...'']"
  let ?t = "fst (calculateTrafficTargets cfg)"
  let ?eta = "snd (calculateTrafficTargets cfg)"
  let ?T = "LogTargets ?t ?eta"
  let ?s3 = "emit (?pre @ [?T]) s"
  let ?ms = "map (the \<circ> fst) (get_metrics_results e)"
  have rt: "runTraffic e cfg s = runTraffic_polling e ?t ?eta ?s3"
    using assms(1,2) by (simp add: runTraffic_def check_acknowledged emit_emit case_prod_beta)
  obtain post where post: "state_of (runTraffic_polling e ?t ?eta ?s3) = emit post ?s3"
    "length (filter is_get_metrics post) =
       Suc (length (takeWhile (\<lambda>b. b) (loop_tests e ?t ?eta ?s3 0 ?ms)))"
    "SetTransmitState STOP \<in> set post \<longleftrightarrow> \<not> list_all (\<lambda>b. b) (loop_tests e ?t ?eta ?s3 0 ?ms)"
    using run_polling_tests [OF assms(3), of ?t ?eta ?s3] by blast
  have same: "loop_tests e ?t ?eta ?s3 0 ?ms = loop_tests e ?t ?eta s 0 ?ms"
    by (rule loop_tests_reads) simp_all
  have "state_of (runTraffic e cfg s) = emit (?pre @ ?T # post) s"
    unfolding rt post(1) by (simp add: emit_emit)
  then have ev: "events_since s (runTraffic e cfg s) = ?pre @ ?T # post" by (rule events_since_emit)
  have o: "\<forall>ev \<in> set (?w r). is_output ev" for r :: "string list option \<times> string option"
    by simp
  have w1: "filter is_get_metrics (?w (set_config_result e cfg)) = []"
    "filter is_get_metrics (?w (set_transmit_result e START)) = []"
    by (rule filter_get_output [OF o])+
  have w2: "SetTransmitState STOP \<notin> set (?w (set_config_result e cfg))"
    "SetTransmitState STOP \<notin> set (?w (set_transmit_result e START))"
    using o output_not_stop by blast+
  have "length (filter is_get_metrics (?pre @ ?T # post)) = length (filter is_get_metrics post)"
    using w1 by simp
  moreover have "SetTransmitState STOP \<in> set (?pre @ ?T # post) \<longleftrightarrow> SetTransmitState STOP \<in> set post"
    using w2 by simp
  ultimately show ?thesis unfolding ev using post(2,3) [unfolded same] by (simp only:)
qed

subsection \<open>A run on the sample configuration\<close>

lemma cfg0_targets: "calculateTrafficTargets cfg0 = (1500, 10 * Second)"
  by code_simp

lemma done_1500: "otgMetrics s = ''port'' \<Longrightarrow> \<not> isTrafficRunning (ports [1500]) 1500 s"
proof -
  have "int64 1500 = 1500" by (rule int64_id) simp_all
  then show "otgMetrics s = ''port'' \<Longrightarrow> ?thesis"
    by (simp add: isTrafficRunning_def ports_def sum_frames_tx_0)
qed

lemma run_example:
  "events_since (state0 ''port'' (Finite 0))
     (runTraffic (env0 [(Some (ports [1500]), None)] (\<lambda>i. steady 0)) cfg0
        (state0 ''port'' (Finite 0))) =
   [LogInfo ''Applying OTG config...'', SetConfig cfg0, LogInfo ''ready.'',
    LogInfo ''Starting traffic...'', SetTransmitState START, LogInfo ''started...'',
    LogTargets 1500 (10 * Second), GetMetrics ''port'', Stdout ''{}'',
    LogInfo ''Stopping traffic...'', SetTransmitState STOP, LogInfo ''stopped.'']"
proof -
  have x: "\<not> fp_less (Finite 0) (xeta (emit es (state0 ''port'' (Finite 0))))" for es
    by (simp add: state0_def)
  have m: "otgMetrics (state0 ''port'' (Finite 0)) = ''port''" by (simp add: state0_def)
  show ?thesis
    by (simp add: runTraffic_def runTraffic_polling_def env0_def checkResponse_def warning_response_def
        metrics_response_of_def fetch_metrics_def printMetricsResponseRawJson_def
        cfg0_targets trafficRunning_def x done_1500 emit_emit metrics_request_def m
        events_since_def Let_def state0_def emit_def)
qed

lemma port_single:
  assumes "otgMetrics s = ''port''" and "- (2 ^ 63) \<le> n" and "n < 2 ^ 63"
  shows "isTrafficRunning (ports [n]) t s \<longleftrightarrow> n < t"
proof -
  have "int64 n = n" using assms(2,3) by (rule int64_id)
  then show ?thesis using assms(1) by (simp add: isTrafficRunning_def ports_def sum_frames_tx_0)
qed

section \<open>The claims\<close>

text \<open>
  C1, as the code has it. With a traffic ETA of 0 and a finite \<open>xeta\<close> above 0 the bound
  is 0 and the timeout test is "0 < elapsed time". A check reads the elapsed time once in
  port mode and once for each flow record it scans in flow mode. For every snapshot: when
  one of these readings is positive, the check answers "not running" and logs the forced
  stop; when none is (the clock still reads 0, or the flow snapshot has no record), the
  answer is that of the target-only policy and nothing is forced.
\<close>

theorem zero_eta_timeout:
  assumes "xeta s = Finite x" and "0 < x"
  shows "((\<exists>k < readings s mr. 0 < since k) \<longrightarrow>
            fst (trafficRunning mr targetTx since 0 s) = False \<and>
            forced_stops (snd (trafficRunning mr targetTx since 0 s)) = forced_stops s + 1) \<and>
         ((\<forall>k < readings s mr. since k \<le> 0) \<longrightarrow>
            trafficRunning mr targetTx since 0 s = (isTrafficRunning mr targetTx s, s))"
proof -
  have sel: "trafficRunning mr targetTx since 0 s = isTrafficRunningWithETA mr targetTx since 0 s"
    using assms by (simp add: trafficRunning_def)
  have ex: "eta_exceeded 0 (xeta s) d \<longleftrightarrow> 0 < d" for d
    unfolding assms(1) by (rule eta_exceeded_zero)
  have a: "fst (isTrafficRunningWithETA mr targetTx since 0 s) = False \<and>
      forced_stops (snd (isTrafficRunningWithETA mr targetTx since 0 s)) = forced_stops s + 1"
    if "\<exists>k < readings s mr. 0 < since k"
    using that by (intro with_eta_hit) (simp add: ex)
  have b: "isTrafficRunningWithETA mr targetTx since 0 s = (isTrafficRunning mr targetTx s, s)"
    if "\<forall>k < readings s mr. since k \<le> 0"
    using that by (intro with_eta_clear) (simp add: ex not_less)
  show ?thesis unfolding sel using a b by blast
qed

theorem zero_eta_timeout_witness:
  "fst (trafficRunning (ports [0]) 999 (steady Second) 0 (state0 ''port'' (Finite 2))) = False \<and>
   forced_stops (snd (trafficRunning (ports [0]) 999 (steady Second) 0
                        (state0 ''port'' (Finite 2)))) = 1 \<and>
   trafficRunning (ports [0]) 999 (steady 0) 0 (state0 ''port'' (Finite 2)) =
     (isTrafficRunning (ports [0]) 999 (state0 ''port'' (Finite 2)), state0 ''port'' (Finite 2)) \<and>
   trafficRunning (flows []) 999 (steady Second) 0 (state0 ''flow'' (Finite 2)) =
     (isTrafficRunning (flows []) 999 (state0 ''flow'' (Finite 2)), state0 ''flow'' (Finite 2))"
proof -
  let ?s = "state0 ''port'' (Finite 2)"
  let ?f = "state0 ''flow'' (Finite 2)"
  have x: "xeta ?s = Finite 2" "xeta ?f = Finite 2" by (simp_all add: state0_def)
  have p: "(0::rat) < 2" by simp
  have r: "readings ?s (ports [0]) = 1" "readings ?f (flows []) = 0"
    by (simp_all add: readings_def state0_def flows_def)
  have a: "\<exists>k < readings ?s (ports [0]). 0 < steady Second k"
    unfolding r by (simp add: steady_def Second_def)
  have b: "\<forall>k < readings ?s (ports [0]). steady 0 k \<le> 0" by (simp add: steady_def)
  have c: "\<forall>k < readings ?f (flows []). steady Second k \<le> 0" unfolding r by simp
  have f: "forced_stops ?s = 0" by (simp add: forced_stops_def state0_def)
  show ?thesis
    using zero_eta_timeout [OF x(1) p, of "ports [0]" "steady Second" 999] a
      zero_eta_timeout [OF x(1) p, of "ports [0]" "steady 0" 999] b
      zero_eta_timeout [OF x(2) p, of "flows []" "steady Second" 999] c f by simp
qed

text \<open>
  C1 as stated fails. A configuration of one flow of 999 packets at 1000 packets a second
  has ETA 0 (so has one of 1500 packets without a rate). In port mode with \<open>xeta = 2\<close>,
  no frame sent yet and the clock at 1 s, the target-only policy answers "running", and
  the policy with the timeout answers "not running" and logs the forced stop.
\<close>

theorem zero_eta_counterexample:
  "calculateTrafficTargets [\<lparr>fixed_packets = 999, rate_pps = 1000\<rparr>] = (999, 0) \<and>
   calculateTrafficTargets [\<lparr>fixed_packets = 1500, rate_pps = 0\<rparr>] = (1500, 0) \<and>
   fp_less (Finite 0) (xeta (state0 ''port'' (Finite 2))) \<and>
   isTrafficRunning (ports [0]) 999 (state0 ''port'' (Finite 2)) \<and>
   trafficRunning (ports [0]) 999 (steady Second) 0 (state0 ''port'' (Finite 2)) =
     (False, emit [LogWarnForced None Second (Finite 2)] (state0 ''port'' (Finite 2)))"
proof -
  let ?s = "state0 ''port'' (Finite 2)"
  have c: "calculateTrafficTargets [\<lparr>fixed_packets = 999, rate_pps = 1000\<rparr>] = (999, 0)"
    by code_simp
  have c': "calculateTrafficTargets [\<lparr>fixed_packets = 1500, rate_pps = 0\<rparr>] = (1500, 0)"
    by code_simp
  have x: "fp_less (Finite 0) (xeta ?s)" by (simp add: state0_def)
  have m: "otgMetrics ?s = ''port''" "xeta ?s = Finite 2" by (simp_all add: state0_def)
  have r: "isTrafficRunning (ports [0]) 999 ?s" using port_single [OF m(1), of 0 999] by simp
  have e: "eta_exceeded 0 (Finite 2) (steady Second 0)"
    by (simp add: eta_exceeded_zero steady_def Second_def)
  have "trafficRunning (ports [0]) 999 (steady Second) 0 ?s =
      (False, emit [LogWarnForced None Second (Finite 2)] ?s)"
    using x e by (simp add: trafficRunning_def isTrafficRunningWithETA_def m steady_def)
  then show ?thesis using c c' x r by blast
qed

text \<open>
  C2. For every configuration whose packet counts are non-negative 32-bit values and add up
  to an \<open>int64\<close>, \<open>calculateTrafficTargets\<close> returns as target the sum of the flows'
  packet counts, and as ETA the greatest \<open>\<lfloor>packet_count / rate\<rfloor>\<close> seconds among the
  flows with a rate above 0, or 0 when no flow has one. For the flows (1000, 100) and
  (500, 50) that is 1500 and 10 s; with every rate 0 the ETA is 0 and the target is still
  the sum.
\<close>

theorem traffic_targets:
  assumes "\<forall>f \<in> set cfg. 0 \<le> fixed_packets f \<and> fixed_packets f < 2 ^ 32"
    and "sum_list (map fixed_packets cfg) < 2 ^ 63"
  shows "calculateTrafficTargets cfg =
           (sum_list (map fixed_packets cfg),
            (if \<exists>f \<in> set cfg. 0 < rate_pps f
             then Max ((\<lambda>f. fixed_packets f div rate_pps f * Second) `
                       {f \<in> set cfg. 0 < rate_pps f})
             else 0))"
proof -
  let ?E = "\<lambda>f. fixed_packets f div rate_pps f * Second"
  let ?S = "{f \<in> set cfg. 0 < rate_pps f}"
  have "calc_loop cfg (int64 0) 0 0 =
      (int64 (0 + sum_list (map fixed_packets cfg)), Max (insert 0 (?E ` ?S)))"
    by (rule calc_loop_result [OF assms(1)]) simp
  then have r: "calculateTrafficTargets cfg =
      (int64 (sum_list (map fixed_packets cfg)), Max (insert 0 (?E ` ?S)))"
    by (simp only: calculateTrafficTargets_def int64_0 add_0_left)
  have "0 \<le> sum_list (map fixed_packets cfg)"
    using assms(1) by (intro sum_list_nonneg_packets) simp
  then have t: "int64 (sum_list (map fixed_packets cfg)) = sum_list (map fixed_packets cfg)"
    using assms(2) by (intro int64_id) simp_all
  have nonneg: "0 \<le> ?E f" if "f \<in> ?S" for f
    using that assms(1) Second_pos by (simp add: pos_imp_zdiv_nonneg_iff)
  have e: "Max (insert 0 (?E ` ?S)) = (if \<exists>f \<in> set cfg. 0 < rate_pps f then Max (?E ` ?S) else 0)"
  proof (cases "?S = {}")
    case True
    then have "\<not> (\<exists>f \<in> set cfg. 0 < rate_pps f)" by blast
    moreover have "Max (insert 0 (?E ` ?S)) = 0" unfolding True by simp
    ultimately show ?thesis by (simp only: if_False)
  next
    case False
    then obtain g where g: "g \<in> ?S" by blast
    have fin: "finite (?E ` ?S)" by simp
    have "?E g \<le> Max (?E ` ?S)" using g fin by (intro Max_ge) blast+
    then have "0 \<le> Max (?E ` ?S)" using nonneg [OF g] by linarith
    moreover have "\<exists>f \<in> set cfg. 0 < rate_pps f" using g by blast
    ultimately show ?thesis using False by (simp add: max_def)
  qed
  show ?thesis unfolding r t e ..
qed

theorem traffic_targets_witness:
  "calculateTrafficTargets
     [\<lparr>fixed_packets = 1000, rate_pps = 100\<rparr>, \<lparr>fixed_packets = 500, rate_pps = 50\<rparr>] =
     (1500, 10 * Second) \<and>
   calculateTrafficTargets
     [\<lparr>fixed_packets = 1000, rate_pps = 0\<rparr>, \<lparr>fixed_packets = 500, rate_pps = 0\<rparr>] =
     (1500, 0)"
proof -
  let ?a = "[\<lparr>fixed_packets = 1000, rate_pps = 100\<rparr>, \<lparr>fixed_packets = 500, rate_pps = 50\<rparr>]"
  let ?b = "[\<lparr>fixed_packets = 1000, rate_pps = 0\<rparr>, \<lparr>fixed_packets = 500, rate_pps = 0\<rparr>]"
  have a1: "\<forall>f \<in> set ?a. 0 \<le> fixed_packets f \<and> fixed_packets f < 2 ^ 32" by simp
  have a2: "sum_list (map fixed_packets ?a) < 2 ^ 63" by simp
  have b1: "\<forall>f \<in> set ?b. 0 \<le> fixed_packets f \<and> fixed_packets f < 2 ^ 32" by simp
  have b2: "sum_list (map fixed_packets ?b) < 2 ^ 63" by simp
  have sa: "{f \<in> set ?a. 0 < rate_pps f} = set ?a" by auto
  have "calculateTrafficTargets ?a = (1500, 10 * Second)"
    unfolding traffic_targets [OF a1 a2] sa by simp
  moreover have "calculateTrafficTargets ?b = (1500, 0)"
    unfolding traffic_targets [OF b1 b2] by simp
  ultimately show ?thesis ..
qed

text \<open>
  C3, as the code has it. With \<open>xeta\<close> above 0, once the test
  \<open>float32(trafficETA)*xeta < float32(time.Since(start))\<close> holds when a check begins,
  the check answers "not running" whatever the metrics are, and logs the forced-stop
  warning: once in port mode, once (for the first record) in flow mode when the snapshot
  has a record, and not at all for a flow snapshot without records. A check that answers
  "running" logs nothing, and the polling loop as a whole logs the warning at most once.
  With \<open>xeta = 2\<close> and an ETA of 10 s the test holds exactly from 20 s + 1024 ns on.
\<close>

theorem forced_stop:
  assumes "fp_less (Finite 0) (xeta s)"
  shows "(eta_exceeded trafficETA (xeta s) (since 0) \<longrightarrow>
            fst (trafficRunning mr targetTx since trafficETA s) = False \<and>
            forced_stops (snd (trafficRunning mr targetTx since trafficETA s)) =
              forced_stops s +
              (if otgMetrics s = ''port'' \<or> (otgMetrics s = ''flow'' \<and> flow_metrics mr \<noteq> [])
               then 1 else 0)) \<and>
         (fst (trafficRunning mr targetTx since trafficETA s) \<longrightarrow>
            snd (trafficRunning mr targetTx since trafficETA s) = s) \<and>
         forced_stops (state_of (poll e targetTx trafficETA rs i mr s)) \<le> forced_stops s + 1 \<and>
         (xeta s = Finite 2 \<longrightarrow>
            (eta_exceeded (10 * Second) (xeta s) d \<longleftrightarrow> 20 * Second + 1024 \<le> d))"
proof -
  have sel: "trafficRunning mr targetTx since trafficETA s =
      isTrafficRunningWithETA mr targetTx since trafficETA s"
    using assms by (simp add: trafficRunning_def)
  have "xeta s = Finite 2 \<longrightarrow>
      (eta_exceeded (10 * Second) (xeta s) d \<longleftrightarrow> 20 * Second + 1024 \<le> d)"
    by (simp add: eta_exceeded_2_10s)
  then show ?thesis unfolding sel
    using exceeded_result [of trafficETA s since mr targetTx]
      with_eta_running [of mr targetTx since trafficETA s]
      poll_forced_once [of e targetTx trafficETA rs i mr s] by blast
qed

theorem forced_stop_witness:
  "fst (trafficRunning (ports [0]) 1500 (steady (21 * Second)) (10 * Second)
          (state0 ''port'' (Finite 2))) = False \<and>
   forced_stops (snd (trafficRunning (ports [0]) 1500 (steady (21 * Second)) (10 * Second)
                        (state0 ''port'' (Finite 2)))) = 1 \<and>
   trafficRunning (ports [0]) 1500 (steady Second) (10 * Second) (state0 ''port'' (Finite 2)) =
     (True, state0 ''port'' (Finite 2))"
proof -
  let ?s = "state0 ''port'' (Finite 2)"
  have x: "fp_less (Finite 0) (xeta ?s)" by (simp add: state0_def)
  have m: "otgMetrics ?s = ''port''" "xeta ?s = Finite 2" by (simp_all add: state0_def)
  have f: "forced_stops ?s = 0" by (simp add: forced_stops_def state0_def)
  have test: "eta_exceeded (10 * Second) (xeta ?s) d \<longleftrightarrow> 20 * Second + 1024 \<le> d" for d
    using forced_stop [OF x, where d = d] m(2) by blast
  have late: "eta_exceeded (10 * Second) (xeta ?s) (steady (21 * Second) 0)"
    unfolding test by (simp add: steady_def Second_def)
  have early: "\<forall>k. \<not> eta_exceeded (10 * Second) (xeta ?s) (steady Second k)"
    unfolding test by (simp add: steady_def Second_def)
  have r: "isTrafficRunning (ports [0]) 1500 ?s"
    by (simp add: isTrafficRunning_def m sum_frames_tx_0 ports_def int64_0)
  have run: "fst (trafficRunning (ports [0]) 1500 (steady Second) (10 * Second) ?s)"
    using x r by (simp add: trafficRunning_def quiet_result [OF early])
  have "snd (trafficRunning (ports [0]) 1500 (steady Second) (10 * Second) ?s) = ?s"
    using forced_stop [OF x, of "10 * Second" "steady Second" "ports [0]" 1500] run by blast
  then have "trafficRunning (ports [0]) 1500 (steady Second) (10 * Second) ?s = (True, ?s)"
    using run by (metis prod.collapse)
  then show ?thesis
    using forced_stop [OF x, of "10 * Second" "steady (21 * Second)" "ports [0]" 1500] late f m
    by simp
qed

text \<open>
  C3 as stated fails in two places, shown for \<open>xeta = 2\<close> and an ETA of 10 s. On the
  warning: in flow mode a check at 21 s on a snapshot without flow records answers "not
  running" and leaves the state as it was, so no warning is logged. On the example: in
  port mode, with no frame sent yet, a check at 20 s + 1 ns still answers "running",
  because the test compares in \<open>float32\<close>.
\<close>

theorem forced_stop_counterexample:
  "fp_less (Finite 0) (xeta (state0 ''flow'' (Finite 2))) \<and>
   eta_exceeded (10 * Second) (xeta (state0 ''flow'' (Finite 2))) (steady (21 * Second) 0) \<and>
   trafficRunning (flows []) 1500 (steady (21 * Second)) (10 * Second)
     (state0 ''flow'' (Finite 2)) = (False, state0 ''flow'' (Finite 2)) \<and>
   forced_stops (state0 ''flow'' (Finite 2)) = 0 \<and>
   trafficRunning (ports [0]) 1500 (steady (20 * Second + 1)) (10 * Second)
     (state0 ''port'' (Finite 2)) = (True, state0 ''port'' (Finite 2))"
proof -
  let ?s = "state0 ''flow'' (Finite 2)"
  let ?p = "state0 ''port'' (Finite 2)"
  have x: "fp_less (Finite 0) (xeta ?s)" "fp_less (Finite 0) (xeta ?p)" by (simp_all add: state0_def)
  have m: "otgMetrics ?s = ''flow''" "xeta ?s = Finite 2" by (simp_all add: state0_def)
  have mp: "otgMetrics ?p = ''port''" "xeta ?p = Finite 2" by (simp_all add: state0_def)
  have late: "eta_exceeded (10 * Second) (xeta ?s) (steady (21 * Second) 0)"
    unfolding m eta_exceeded_2_10s by (simp add: steady_def Second_def)
  have a: "trafficRunning (flows []) 1500 (steady (21 * Second)) (10 * Second) ?s = (False, ?s)"
    using x by (simp add: trafficRunning_def isTrafficRunningWithETA_def m flows_def)
  have b: "forced_stops ?s = 0" by (simp add: forced_stops_def state0_def)
  have early: "\<forall>k. \<not> eta_exceeded (10 * Second) (xeta ?p) (steady (20 * Second + 1) k)"
    unfolding mp eta_exceeded_2_10s by (simp add: steady_def Second_def)
  have r: "isTrafficRunning (ports [0]) 1500 ?p"
    by (simp add: isTrafficRunning_def mp sum_frames_tx_0 ports_def int64_0)
  have c: "trafficRunning (ports [0]) 1500 (steady (20 * Second + 1)) (10 * Second) ?p = (True, ?p)"
    using x r by (simp add: trafficRunning_def quiet_result [OF early])
  show ?thesis using x(1) late a b c by blast
qed

text \<open>
  C4, as the code has it. In a run whose SetConfig and START calls are acknowledged, the
  targets of the configuration are computed and logged exactly once: after the START
  transmit state has been sent, before the first metrics request, and never again in the
  rest of the run. Every test of the polling loop uses these two values: when the metrics
  answers are good, the run makes its first metrics request and one more for each test in
  a row that answers "running" with the targets of the configuration, and it sends STOP
  exactly when one of these tests answers "not running". A run that ends at the SetConfig
  or START call computes no targets and requests no metrics.
\<close>

theorem targets_logged_once:
  "(acknowledged (set_config_result e cfg) \<and> acknowledged (set_transmit_result e START) \<longrightarrow>
      (\<exists>pre post.
         events_since s (runTraffic e cfg s) =
           pre @ LogTargets (fst (calculateTrafficTargets cfg)) (snd (calculateTrafficTargets cfg))
               # post \<and>
         SetTransmitState START \<in> set pre \<and>
         (\<forall>ev \<in> set pre. \<not> is_targets ev \<and> (\<forall>c. ev \<noteq> GetMetrics c)) \<and>
         (\<forall>ev \<in> set post. \<not> is_targets ev))) \<and>
   (\<not> (acknowledged (set_config_result e cfg) \<and> acknowledged (set_transmit_result e START)) \<longrightarrow>
      (\<forall>ev \<in> set (events_since s (runTraffic e cfg s)).
         \<not> is_targets ev \<and> (\<forall>c. ev \<noteq> GetMetrics c))) \<and>
   (acknowledged (set_config_result e cfg) \<and> acknowledged (set_transmit_result e START) \<and>
    (\<forall>r \<in> set (get_metrics_results e). good_answer e r) \<longrightarrow>
      length (filter is_get_metrics (events_since s (runTraffic e cfg s))) =
        Suc (length (takeWhile (\<lambda>b. b)
               (loop_tests e (fst (calculateTrafficTargets cfg))
                  (snd (calculateTrafficTargets cfg)) s 0
                  (map (the \<circ> fst) (get_metrics_results e))))) \<and>
      (SetTransmitState STOP \<in> set (events_since s (runTraffic e cfg s)) \<longleftrightarrow>
         \<not> list_all (\<lambda>b. b)
             (loop_tests e (fst (calculateTrafficTargets cfg))
                (snd (calculateTrafficTargets cfg)) s 0
                (map (the \<circ> fst) (get_metrics_results e)))))"
  using targets_order [of e cfg s] run_tests [of e cfg s] by blast

theorem targets_logged_once_witness:
  "(\<exists>pre post.
      events_since (state0 ''port'' (Finite 0))
        (runTraffic (env0 [(Some (ports [1500]), None)] (\<lambda>i. steady 0)) cfg0
           (state0 ''port'' (Finite 0))) =
        pre @ LogTargets 1500 (10 * Second) # post \<and>
      SetTransmitState START \<in> set pre \<and>
      filter is_targets pre = [] \<and> filter is_targets post = []) \<and>
   filter is_targets
     (events_since (state0 ''port'' (Finite 0))
        (runTraffic ((env0 [] (\<lambda>i. steady 0))
                       \<lparr>set_config_result := (\<lambda>c. (None, Some ''refused''))\<rparr>) cfg0
           (state0 ''port'' (Finite 0)))) = [] \<and>
   length (filter is_get_metrics
     (events_since (state0 ''port'' (Finite 0))
        (runTraffic (env0 [(Some (ports [0]), None), (Some (ports [700]), None),
                           (Some (ports [1500]), None), (Some (ports [1500]), None)]
                          (\<lambda>i. steady 0)) cfg0
           (state0 ''port'' (Finite 0))))) = 3 \<and>
   SetTransmitState STOP \<in> set
     (events_since (state0 ''port'' (Finite 0))
        (runTraffic (env0 [(Some (ports [0]), None), (Some (ports [700]), None),
                           (Some (ports [1500]), None), (Some (ports [1500]), None)]
                          (\<lambda>i. steady 0)) cfg0
           (state0 ''port'' (Finite 0))))"
proof -
  let ?e = "env0 [(Some (ports [1500]), None)] (\<lambda>i. steady 0)"
  let ?e' = "(env0 [] (\<lambda>i. steady 0))\<lparr>set_config_result := (\<lambda>c. (None, Some ''refused''))\<rparr>"
  let ?e3 = "env0 [(Some (ports [0]), None), (Some (ports [700]), None),
                   (Some (ports [1500]), None), (Some (ports [1500]), None)] (\<lambda>i. steady 0)"
  let ?s = "state0 ''port'' (Finite 0)"
  have a: "acknowledged (set_config_result ?e cfg0) \<and> acknowledged (set_transmit_result ?e START)"
    by (simp add: acknowledged_def env0_def)
  have n: "\<not> (acknowledged (set_config_result ?e' cfg0) \<and>
      acknowledged (set_transmit_result ?e' START))"
    by (simp add: acknowledged_def env0_def)
  obtain pre post where pp:
    "events_since ?s (runTraffic ?e cfg0 ?s) = pre @ LogTargets 1500 (10 * Second) # post"
    "SetTransmitState START \<in> set pre" "\<forall>ev \<in> set pre. \<not> is_targets ev"
    "\<forall>ev \<in> set post. \<not> is_targets ev"
    using targets_logged_once [of ?e cfg0 ?s] a unfolding cfg0_targets fst_conv snd_conv by blast
  have "filter is_targets pre = []" "filter is_targets post = []"
    using pp(3,4) by (simp_all add: filter_empty_conv)
  then have first: "\<exists>pre post.
      events_since ?s (runTraffic ?e cfg0 ?s) = pre @ LogTargets 1500 (10 * Second) # post \<and>
      SetTransmitState START \<in> set pre \<and>
      filter is_targets pre = [] \<and> filter is_targets post = []"
    using pp(1,2) by blast
  have "\<forall>ev \<in> set (events_since ?s (runTraffic ?e' cfg0 ?s)). \<not> is_targets ev"
    using targets_logged_once [of ?e' cfg0 ?s] n by blast
  then have second: "filter is_targets (events_since ?s (runTraffic ?e' cfg0 ?s)) = []"
    by (simp add: filter_empty_conv)
  have a3: "acknowledged (set_config_result ?e3 cfg0) \<and>
      acknowledged (set_transmit_result ?e3 START) \<and>
      (\<forall>r \<in> set (get_metrics_results ?e3). good_answer ?e3 r)"
    by (simp add: acknowledged_def env0_def good_answer_def)
  have m: "otgMetrics ?s = ''port''" and x: "\<not> fp_less (Finite 0) (xeta ?s)"
    by (simp_all add: state0_def)
  have run: "fst (trafficRunning (ports [k]) 1500 c d ?s) \<longleftrightarrow> k < 1500"
    if "- (2 ^ 63) \<le> k" "k < 2 ^ 63" for k c d
    using x port_single [OF m that] by (simp add: trafficRunning_def)
  have tests: "loop_tests ?e3 1500 (10 * Second) ?s 0 (map (the \<circ> fst) (get_metrics_results ?e3)) =
      [True, True, False, False]"
    by (simp add: env0_def run)
  have third: "length (filter is_get_metrics (events_since ?s (runTraffic ?e3 cfg0 ?s))) = 3 \<and>
      SetTransmitState STOP \<in> set (events_since ?s (runTraffic ?e3 cfg0 ?s))"
    using targets_logged_once [of ?e3 cfg0 ?s] a3
    unfolding cfg0_targets fst_conv snd_conv tests by simp
  show ?thesis using first second third by blast
qed

text \<open>
  C4 as stated fails on the order: in this run of the sample configuration the targets
  are logged after START has been sent.
\<close>

theorem targets_after_start_counterexample:
  "events_since (state0 ''port'' (Finite 0))
     (runTraffic (env0 [(Some (ports [1500]), None)] (\<lambda>i. steady 0)) cfg0
        (state0 ''port'' (Finite 0))) =
   [LogInfo ''Applying OTG config...'', SetConfig cfg0, LogInfo ''ready.'',
    LogInfo ''Starting traffic...'', SetTransmitState START, LogInfo ''started...'',
    LogTargets 1500 (10 * Second), GetMetrics ''port'', Stdout ''{}'',
    LogInfo ''Stopping traffic...'', SetTransmitState STOP, LogInfo ''stopped.'']"
  by (rule run_example)

text \<open>
  C5. When \<open>xeta\<close> is not above 0, the test of the polling loop is \<open>isTrafficRunning\<close>
  on the snapshot and the target: it leaves the state as it is (it forces nothing and warns
  of nothing), it gives the same answer whatever the clock reads, and the whole polling
  loop runs the same way under any clock.
\<close>

theorem target_only_ignores_time:
  assumes "\<not> fp_less (Finite 0) (xeta s)"
  shows "trafficRunning mr targetTx since trafficETA s = (isTrafficRunning mr targetTx s, s) \<and>
         trafficRunning mr targetTx since trafficETA s =
           trafficRunning mr targetTx since' trafficETA s \<and>
         poll (e\<lparr>since_start := c\<rparr>) targetTx trafficETA rs i mr s =
           poll e targetTx trafficETA rs i mr s"
  using assms poll_clock [OF assms] by (simp add: trafficRunning_def)

theorem target_only_ignores_time_witness:
  "\<not> fp_less (Finite 0) (xeta (state0 ''port'' (Finite 0))) \<and>
   trafficRunning (ports [3, 4]) 10 (steady Second) (10 * Second) (state0 ''port'' (Finite 0)) =
   trafficRunning (ports [3, 4]) 10 (steady (100 * Second)) (10 * Second)
     (state0 ''port'' (Finite 0))"
proof -
  have h: "\<not> fp_less (Finite 0) (xeta (state0 ''port'' (Finite 0)))"
    by (simp add: state0_def)
  show ?thesis using h target_only_ignores_time [OF h] by blast
qed

text \<open>
  C6. In port mode \<open>isTrafficRunning\<close> is true exactly when the sum of the ports'
  \<open>FramesTx\<close>, added up in \<open>int64\<close>, is below the target; for every snapshot whose sum
  is an \<open>int64\<close> that is: exactly when the sum is below the target, and false once the
  sum has reached it.
\<close>

theorem port_mode_running:
  assumes "otgMetrics s = ''port''"
  shows "(isTrafficRunning mr targetTx s \<longleftrightarrow>
            int64 (sum_list (map frames_tx (port_metrics mr))) < targetTx) \<and>
         (- (2 ^ 63) \<le> sum_list (map frames_tx (port_metrics mr)) \<and>
          sum_list (map frames_tx (port_metrics mr)) < 2 ^ 63 \<longrightarrow>
            (isTrafficRunning mr targetTx s \<longleftrightarrow>
               sum_list (map frames_tx (port_metrics mr)) < targetTx))"
proof -
  have a: "isTrafficRunning mr targetTx s \<longleftrightarrow>
            int64 (sum_list (map frames_tx (port_metrics mr))) < targetTx"
    using assms by (simp add: isTrafficRunning_def sum_frames_tx_0)
  show ?thesis using a int64_id [of "sum_list (map frames_tx (port_metrics mr))"] by auto
qed

theorem port_mode_running_witness:
  "isTrafficRunning (ports [700, 799]) 1500 (state0 ''port'' (Finite 0)) \<and>
   \<not> isTrafficRunning (ports [700, 800]) 1500 (state0 ''port'' (Finite 0))"
proof -
  have h: "otgMetrics (state0 ''port'' (Finite 0)) = ''port''" by (simp add: state0_def)
  have a: "sum_list (map frames_tx (port_metrics (ports [700, 799]))) = 1499"
    by (simp add: ports_def)
  have b: "sum_list (map frames_tx (port_metrics (ports [700, 800]))) = 1500"
    by (simp add: ports_def)
  have "isTrafficRunning (ports [700, 799]) 1500 (state0 ''port'' (Finite 0))"
    using port_mode_running [OF h, of "ports [700, 799]" 1500, THEN conjunct2] unfolding a by simp
  moreover have "\<not> isTrafficRunning (ports [700, 800]) 1500 (state0 ''port'' (Finite 0))"
    using port_mode_running [OF h, of "ports [700, 800]" 1500, THEN conjunct2] unfolding b by simp
  ultimately show ?thesis ..
qed

text \<open>
  C7. In flow mode \<open>isTrafficRunning\<close> is true exactly when some flow record of the
  snapshot has a transmit state other than STOPPED; it is false when all are STOPPED, and
  for the snapshot without records.
\<close>

theorem flow_mode_running:
  assumes "otgMetrics s = ''flow''"
  shows "isTrafficRunning mr targetTx s \<longleftrightarrow>
           (\<exists>fm \<in> set (flow_metrics mr). transmit fm \<noteq> STOPPED)"
  using assms by (simp add: isTrafficRunning_def scan_flows_iff)

theorem flow_mode_running_witness:
  "isTrafficRunning (flows [(''f1'', STOPPED), (''f2'', STARTED)]) 1500 (state0 ''flow'' (Finite 0)) \<and>
   \<not> isTrafficRunning (flows [(''f1'', STOPPED), (''f2'', STOPPED)]) 1500
       (state0 ''flow'' (Finite 0)) \<and>
   \<not> isTrafficRunning (flows []) 1500 (state0 ''flow'' (Finite 0))"
proof -
  have h: "otgMetrics (state0 ''flow'' (Finite 0)) = ''flow''" by (simp add: state0_def)
  have "isTrafficRunning (flows [(''f1'', STOPPED), (''f2'', STARTED)]) 1500
          (state0 ''flow'' (Finite 0))"
    unfolding flow_mode_running [OF h] by (simp add: flows_def)
  moreover have "\<not> isTrafficRunning (flows [(''f1'', STOPPED), (''f2'', STOPPED)]) 1500
          (state0 ''flow'' (Finite 0))"
    unfolding flow_mode_running [OF h] by (simp add: flows_def)
  moreover have "\<not> isTrafficRunning (flows []) 1500 (state0 ''flow'' (Finite 0))"
    unfolding flow_mode_running [OF h] by (simp add: flows_def)
  ultimately show ?thesis by blast
qed

text \<open>
  C8. When the metrics mode is neither "port" nor "flow", the run command ends at once
  with a fatal log line: it reads no configuration and makes no call to the server.
\<close>

theorem unsupported_metrics_fatal:
  assumes "otgMetrics s \<noteq> ''port''" and "otgMetrics s \<noteq> ''flow''"
  shows "runCmd e s =
           Exit (emit [LogFatal (''Unsupported metrics type requested: '' @ otgMetrics s)] s) \<and>
         (\<forall>ev \<in> set (events_since s (runCmd e s)). \<not> is_read ev \<and> \<not> is_remote_call ev)"
proof -
  have r: "runCmd e s =
      Exit (emit [LogFatal (''Unsupported metrics type requested: '' @ otgMetrics s)] s)"
    using assms by (simp add: runCmd_def)
  then have "events_since s (runCmd e s) =
      [LogFatal (''Unsupported metrics type requested: '' @ otgMetrics s)]"
    by (intro events_since_emit) simp
  then show ?thesis using r by simp
qed

theorem unsupported_metrics_fatal_witness:
  "runCmd (env0 [] (\<lambda>i. steady 0)) (state0 ''ports'' (Finite 0)) =
     Exit (emit [LogFatal ''Unsupported metrics type requested: ports'']
             (state0 ''ports'' (Finite 0)))"
proof -
  have a: "otgMetrics (state0 ''ports'' (Finite 0)) \<noteq> ''port''"
    and b: "otgMetrics (state0 ''ports'' (Finite 0)) \<noteq> ''flow''"
    and c: "otgMetrics (state0 ''ports'' (Finite 0)) = ''ports''"
    by (simp_all add: state0_def)
  show ?thesis using unsupported_metrics_fatal [OF a b, of "env0 [] (\<lambda>i. steady 0)"]
    unfolding c by simp
qed

text \<open>
  C9. Both completion checks give the same answer however often they are called with the
  same snapshot, target and clock readings: in the state left by any number of calls of
  \<open>isTrafficRunningWithETA\<close> (each may have logged a warning), one more call returns
  the boolean of the first, and \<open>isTrafficRunning\<close>, which changes nothing, returns
  what it returned before them.
\<close>

theorem policy_idempotent:
  "fst (isTrafficRunningWithETA mr targetTx since trafficETA
          (((\<lambda>s'. snd (isTrafficRunningWithETA mr targetTx since trafficETA s')) ^^ n) s)) =
     fst (isTrafficRunningWithETA mr targetTx since trafficETA s) \<and>
   isTrafficRunning mr targetTx
     (((\<lambda>s'. snd (isTrafficRunningWithETA mr targetTx since trafficETA s')) ^^ n) s) =
     isTrafficRunning mr targetTx s"
proof -
  let ?f = "\<lambda>s'. snd (isTrafficRunningWithETA mr targetTx since trafficETA s')"
  have keep: "otgMetrics (?f s') = otgMetrics s' \<and> xeta (?f s') = xeta s'" for s'
  proof -
    obtain ws where "?f s' = emit ws s'" using with_eta_state by blast
    then show ?thesis by simp
  qed
  have "otgMetrics ((?f ^^ n) s) = otgMetrics s \<and> xeta ((?f ^^ n) s) = xeta s"
  proof (induction n)
    case 0
    show ?case by simp
  next
    case (Suc n)
    then show ?case using keep [of "(?f ^^ n) s"] by simp
  qed
  then show ?thesis using with_eta_reads running_reads by blast
qed

text \<open>
  C10, as the code has it. In flow mode the timeout test inside the scan is
  \<open>float32(trafficETA)*xeta < float32(time.Since(start))\<close>: it looks at the clock only,
  not at the record, and compares the elapsed time with ETA times xeta in \<open>float32\<close>.
  The test holds whenever the elapsed time is above ETA times xeta by more than a relative
  \<open>2\<^sup>-\<^sup>2\<^sup>2\<close> and fails whenever it is below by more than that (for an ETA of 1 ns or more
  and a finite xeta from \<open>2\<^sup>-\<^sup>1\<^sup>0\<^sup>0\<close> to \<open>2\<^sup>6\<^sup>0\<close>); with an ETA of 0 it is "0 < elapsed
  time"; with \<open>xeta = 2\<close> and an ETA of 10 s it holds exactly from 20 s + 1024 ns on.
  When the test holds on entry and the snapshot has a first record,
  \<open>isTrafficRunningWithETA\<close> returns false with the warning for that record, whatever
  its transmit state and whatever follows it; in general it returns false with one warning
  when the test holds at the reading taken for one of the records, and the answer of
  \<open>isTrafficRunning\<close> with no warning when it holds at none. With no record the test is
  never made and the result is the initial false, with no warning. Two snapshots that name
  the same flows in the same order get the same warning, or none, whatever the transmit
  states in them.
\<close>

theorem flow_scan_timeout:
  assumes "otgMetrics s = ''flow''"
  shows "(flow_metrics mr = fm # fms \<and> eta_exceeded trafficETA (xeta s) (since 0) \<longrightarrow>
            isTrafficRunningWithETA mr targetTx since trafficETA s =
              (False, emit [LogWarnForced (Some (fm_name fm)) (since 1) (xeta s)] s)) \<and>
         (flow_metrics mr = [] \<longrightarrow>
            isTrafficRunningWithETA mr targetTx since trafficETA s = (False, s)) \<and>
         (map fm_name (flow_metrics mr) = map fm_name (flow_metrics mr') \<longrightarrow>
            snd (isTrafficRunningWithETA mr targetTx since trafficETA s) =
            snd (isTrafficRunningWithETA mr' targetTx since trafficETA s)) \<and>
         ((\<exists>k < length (flow_metrics mr). eta_exceeded trafficETA (xeta s) (since k)) \<longrightarrow>
            fst (isTrafficRunningWithETA mr targetTx since trafficETA s) = False \<and>
            forced_stops (snd (isTrafficRunningWithETA mr targetTx since trafficETA s)) =
              forced_stops s + 1) \<and>
         ((\<forall>k < length (flow_metrics mr). \<not> eta_exceeded trafficETA (xeta s) (since k)) \<longrightarrow>
            isTrafficRunningWithETA mr targetTx since trafficETA s =
              (isTrafficRunning mr targetTx s, s)) \<and>
         (xeta s = Finite x \<and> 1 \<le> trafficETA \<and> trafficETA < 2 ^ 63 \<and> d < 2 ^ 63 \<and>
          1 / 2 ^ 100 \<le> x \<and> x \<le> 2 ^ 60 \<longrightarrow>
            (of_int trafficETA * x * (1 + 1 / 2 ^ 22) < of_int d \<longrightarrow>
               eta_exceeded trafficETA (xeta s) d) \<and>
            (eta_exceeded trafficETA (xeta s) d \<longrightarrow>
               of_int trafficETA * x * (1 - 1 / 2 ^ 22) < of_int d)) \<and>
         (xeta s = Finite x \<longrightarrow> (eta_exceeded 0 (xeta s) d \<longleftrightarrow> 0 < d)) \<and>
         (xeta s = Finite 2 \<longrightarrow>
            (eta_exceeded (10 * Second) (xeta s) d \<longleftrightarrow> 20 * Second + 1024 \<le> d))"
proof -
  have r: "readings s m = length (flow_metrics m)" for m
    using assms by (simp add: readings_def)
  have names: "snd (isTrafficRunningWithETA mr targetTx since trafficETA s) =
      snd (isTrafficRunningWithETA mr' targetTx since trafficETA s)"
    if "map fm_name (flow_metrics mr) = map fm_name (flow_metrics mr')"
    using assms scan_flows_eta_names [OF that, of trafficETA "xeta s" since 0 False False]
    by (simp add: isTrafficRunningWithETA_def case_prod_beta)
  have first: "(flow_metrics mr = fm # fms \<and> eta_exceeded trafficETA (xeta s) (since 0) \<longrightarrow>
            isTrafficRunningWithETA mr targetTx since trafficETA s =
              (False, emit [LogWarnForced (Some (fm_name fm)) (since 1) (xeta s)] s)) \<and>
         (flow_metrics mr = [] \<longrightarrow>
            isTrafficRunningWithETA mr targetTx since trafficETA s = (False, s))"
    using assms by (simp add: isTrafficRunningWithETA_def)
  have hit: "fst (isTrafficRunningWithETA mr targetTx since trafficETA s) = False \<and>
      forced_stops (snd (isTrafficRunningWithETA mr targetTx since trafficETA s)) =
        forced_stops s + 1"
    if "\<exists>k < length (flow_metrics mr). eta_exceeded trafficETA (xeta s) (since k)"
    using that by (intro with_eta_hit) (simp add: r)
  have clear: "isTrafficRunningWithETA mr targetTx since trafficETA s =
      (isTrafficRunning mr targetTx s, s)"
    if "\<forall>k < length (flow_metrics mr). \<not> eta_exceeded trafficETA (xeta s) (since k)"
    using that by (intro with_eta_clear) (simp add: r)
  have tie: "(of_int trafficETA * x * (1 + 1 / 2 ^ 22) < of_int d \<longrightarrow>
               eta_exceeded trafficETA (xeta s) d) \<and>
            (eta_exceeded trafficETA (xeta s) d \<longrightarrow>
               of_int trafficETA * x * (1 - 1 / 2 ^ 22) < of_int d)"
    if "xeta s = Finite x \<and> 1 \<le> trafficETA \<and> trafficETA < 2 ^ 63 \<and> d < 2 ^ 63 \<and>
        1 / 2 ^ 100 \<le> x \<and> x \<le> 2 ^ 60"
    using that eta_exceeded_bounds [of trafficETA d x] by simp
  have zero: "xeta s = Finite x \<longrightarrow> (eta_exceeded 0 (xeta s) d \<longleftrightarrow> 0 < d)"
    by (simp add: eta_exceeded_zero)
  have two: "xeta s = Finite 2 \<longrightarrow>
      (eta_exceeded (10 * Second) (xeta s) d \<longleftrightarrow> 20 * Second + 1024 \<le> d)"
    by (simp add: eta_exceeded_2_10s)
  show ?thesis using first names hit clear tie zero two by blast
qed

theorem flow_scan_timeout_witness:
  "isTrafficRunningWithETA (flows [(''f1'', STARTED), (''f2'', STOPPED)]) 1500
     (steady (21 * Second)) (10 * Second) (state0 ''flow'' (Finite 2)) =
     (False, emit [LogWarnForced (Some ''f1'') (21 * Second) (Finite 2)]
               (state0 ''flow'' (Finite 2))) \<and>
   isTrafficRunningWithETA (flows []) 1500 (steady (21 * Second)) (10 * Second)
     (state0 ''flow'' (Finite 2)) = (False, state0 ''flow'' (Finite 2)) \<and>
   snd (isTrafficRunningWithETA (flows [(''f1'', STOPPED), (''f2'', STARTED)]) 1500
          (steady (21 * Second)) (10 * Second) (state0 ''flow'' (Finite 2))) =
     emit [LogWarnForced (Some ''f1'') (21 * Second) (Finite 2)] (state0 ''flow'' (Finite 2)) \<and>
   isTrafficRunningWithETA (flows [(''f1'', STARTED), (''f2'', STOPPED)]) 1500
     (steady (19 * Second)) (10 * Second) (state0 ''flow'' (Finite 2)) =
     (isTrafficRunning (flows [(''f1'', STARTED), (''f2'', STOPPED)]) 1500
        (state0 ''flow'' (Finite 2)), state0 ''flow'' (Finite 2)) \<and>
   forced_stops (snd (isTrafficRunningWithETA (flows [(''f1'', STARTED), (''f2'', STOPPED)]) 1500
     (steady (21 * Second)) (10 * Second) (state0 ''flow'' (Finite 2)))) = 1 \<and>
   eta_exceeded 0 (Finite 2) 1 \<and>
   eta_exceeded (10 * Second) (Finite 2) (20 * Second + 1024)"
proof -
  let ?s = "state0 ''flow'' (Finite 2)"
  let ?fm = "\<lparr>fm_name = ''f1'', transmit = STARTED\<rparr>"
  let ?fms = "[\<lparr>fm_name = ''f2'', transmit = STOPPED\<rparr>]"
  let ?mr = "flows [(''f1'', STARTED), (''f2'', STOPPED)]"
  let ?mr' = "flows [(''f1'', STOPPED), (''f2'', STARTED)]"
  have h: "otgMetrics ?s = ''flow''" by (simp add: state0_def)
  have x: "xeta ?s = Finite 2" by (simp add: state0_def)
  have f0: "forced_stops ?s = 0" by (simp add: forced_stops_def state0_def)
  have f: "flow_metrics ?mr = ?fm # ?fms" by (simp add: flows_def)
  have n: "flow_metrics (flows []) = []" by (simp add: flows_def)
  have same: "map fm_name (flow_metrics ?mr') = map fm_name (flow_metrics ?mr)"
    by (simp add: flows_def)
  have rng: "xeta ?s = Finite 2 \<and> 1 \<le> 10 * Second \<and> 10 * Second < 2 ^ 63 \<and> dd < 2 ^ 63 \<and>
      1 / 2 ^ 100 \<le> (2::rat) \<and> (2::rat) \<le> 2 ^ 60" if "dd < 2 ^ 63" for dd
    using that x by (simp add: Second_def)
  have "of_int (10 * Second) * 2 * (1 + 1 / 2 ^ 22) < (of_int (21 * Second) :: rat)"
    by (simp add: Second_def)
  then have late: "eta_exceeded (10 * Second) (xeta ?s) (21 * Second)"
    using flow_scan_timeout [OF h, where trafficETA = "10 * Second" and x = 2 and d = "21 * Second"]
      rng [of "21 * Second"] by (simp add: Second_def)
  have "\<not> of_int (10 * Second) * 2 * (1 - 1 / 2 ^ 22) < (of_int (19 * Second) :: rat)"
    by (simp add: Second_def)
  then have early: "\<not> eta_exceeded (10 * Second) (xeta ?s) (19 * Second)"
    using flow_scan_timeout [OF h, where trafficETA = "10 * Second" and x = 2 and d = "19 * Second"]
      rng [of "19 * Second"] by (simp add: Second_def)
  have t: "eta_exceeded (10 * Second) (xeta ?s) (steady (21 * Second) 0)"
    using late by (simp add: steady_def)
  have a: "isTrafficRunningWithETA ?mr 1500 (steady (21 * Second)) (10 * Second) ?s =
        (False, emit [LogWarnForced (Some (fm_name ?fm)) (steady (21 * Second) 1) (xeta ?s)] ?s)"
    using flow_scan_timeout [OF h, of ?mr ?fm ?fms "10 * Second" "steady (21 * Second)" 1500] f t
    by blast
  have b: "isTrafficRunningWithETA (flows []) 1500 (steady (21 * Second)) (10 * Second) ?s =
        (False, ?s)"
    using flow_scan_timeout [OF h, of "flows []" _ _ "10 * Second" "steady (21 * Second)" 1500] n
    by blast
  have c: "snd (isTrafficRunningWithETA ?mr' 1500 (steady (21 * Second)) (10 * Second) ?s) =
        snd (isTrafficRunningWithETA ?mr 1500 (steady (21 * Second)) (10 * Second) ?s)"
    using flow_scan_timeout [OF h, of ?mr' _ _ "10 * Second" "steady (21 * Second)" 1500 ?mr] same
    by blast
  have "\<exists>k < length (flow_metrics ?mr). eta_exceeded (10 * Second) (xeta ?s) (steady (21 * Second) k)"
    using t f by auto
  then have d: "forced_stops (snd (isTrafficRunningWithETA ?mr 1500 (steady (21 * Second))
      (10 * Second) ?s)) = forced_stops ?s + 1"
    using flow_scan_timeout [OF h, of ?mr _ _ "10 * Second" "steady (21 * Second)" 1500] by blast
  have "\<forall>k < length (flow_metrics ?mr). \<not> eta_exceeded (10 * Second) (xeta ?s) (steady (19 * Second) k)"
    using early by (simp add: steady_def)
  then have e: "isTrafficRunningWithETA ?mr 1500 (steady (19 * Second)) (10 * Second) ?s =
      (isTrafficRunning ?mr 1500 ?s, ?s)"
    using flow_scan_timeout [OF h, of ?mr _ _ "10 * Second" "steady (19 * Second)" 1500] by blast
  have z: "eta_exceeded 0 (Finite 2) 1"
    using flow_scan_timeout [OF h, where x = 2 and d = 1] x by simp
  have w: "eta_exceeded (10 * Second) (Finite 2) (20 * Second + 1024)"
    using flow_scan_timeout [OF h, where d = "20 * Second + 1024"] x by simp
  show ?thesis using a b c d e z w by (simp add: x f0 steady_def)
qed

text \<open>
  C10 as stated fails where the elapsed time is above ETA times xeta by less than
  \<open>float32\<close> can tell: in flow mode with \<open>xeta = 2\<close> and an ETA of 10 s, a check at
  20 s + 1 ns on a snapshot of one STARTED flow answers "running" and logs nothing.
\<close>

theorem flow_scan_timeout_counterexample:
  "10 * Second * 2 < 20 * Second + 1 \<and>
   isTrafficRunningWithETA (flows [(''f1'', STARTED)]) 1500 (steady (20 * Second + 1))
     (10 * Second) (state0 ''flow'' (Finite 2)) = (True, state0 ''flow'' (Finite 2))"
proof -
  let ?s = "state0 ''flow'' (Finite 2)"
  let ?mr = "flows [(''f1'', STARTED)]"
  have m: "otgMetrics ?s = ''flow''" "xeta ?s = Finite 2" by (simp_all add: state0_def)
  have early: "\<forall>k < readings ?s ?mr.
      \<not> eta_exceeded (10 * Second) (xeta ?s) (steady (20 * Second + 1) k)"
    unfolding m eta_exceeded_2_10s by (simp add: steady_def Second_def)
  have r: "isTrafficRunning ?mr 1500 ?s"
    by (simp add: isTrafficRunning_def m flows_def)
  have "isTrafficRunningWithETA ?mr 1500 (steady (20 * Second + 1)) (10 * Second) ?s = (True, ?s)"
    using with_eta_clear [OF early] r by simp
  moreover have "10 * Second * 2 < 20 * Second + 1" by (simp add: Second_def)
  ultimately show ?thesis by blast
qed

end
